theory Spec2Isabelle
  imports Main "HOL-Library.Word" "HOL-Library.Monad_Syntax" "HOL-Library.Multiset"
begin

section \<open>C integers and the page buffer\<close>

text \<open>
  The slotted-page codec of \<^verbatim>\<open>toydb/tools/slot_page.c\<close> works on a raw
  \<^verbatim>\<open>char *pageBuf\<close>. The buffer is modelled as a list of bytes, every C integer
  as an \<open>int\<close> with the conversions of the C code written out, and every access
  outside the buffer (undefined behaviour in C) as the value \<open>None\<close>.
  \<open>short\<close> is 16 bits, \<open>int\<close> 32 bits and \<open>size_t\<close> 64 bits; a \<open>short\<close> is stored
  low byte first.
\<close>

type_synonym byte = "8 word"
type_synonym page = "byte list"

definition to_short :: "int \<Rightarrow> int" where
  "to_short x = (x + 32768) mod 65536 - 32768"

definition to_int :: "int \<Rightarrow> int" where
  "to_int x = (x + 2147483648) mod 4294967296 - 2147483648"

definition to_size_t :: "int \<Rightarrow> int" where
  "to_size_t x = x mod 18446744073709551616"

definition get_short :: "page \<Rightarrow> int \<Rightarrow> int" where
  "get_short p a = to_short (uint (p ! nat a) + 256 * uint (p ! nat (a + 1)))"

definition put_short :: "page \<Rightarrow> int \<Rightarrow> int \<Rightarrow> page" where
  "put_short p a v = p[nat a := word_of_int v, nat (a + 1) := word_of_int (v div 256)]"

definition rd_short :: "page \<Rightarrow> int \<Rightarrow> int option" where
  "rd_short p a =
     (if 0 \<le> a \<and> a + 2 \<le> int (length p) then Some (get_short p a) else None)"

definition wr_short :: "page \<Rightarrow> int \<Rightarrow> int \<Rightarrow> page option" where
  "wr_short p a v =
     (if 0 \<le> a \<and> a + 2 \<le> int (length p) then Some (put_short p a v) else None)"

definition rd_bytes :: "page \<Rightarrow> int \<Rightarrow> int \<Rightarrow> byte list option" where
  "rd_bytes p a n =
     (if 0 \<le> a \<and> 0 \<le> n \<and> a + n \<le> int (length p)
      then Some (take (nat n) (drop (nat a) p)) else None)"

definition wr_bytes :: "page \<Rightarrow> int \<Rightarrow> byte list \<Rightarrow> page option" where
  "wr_bytes p a bs =
     (if 0 \<le> a \<and> a + int (length bs) \<le> int (length p)
      then Some (take (nat a) p @ bs @ drop (nat a + length bs) p) else None)"

text \<open>\<^verbatim>\<open>memset(pageBuf, c, n)\<close>, \<^verbatim>\<open>memcpy(pageBuf + dest, src, n)\<close> and
  \<^verbatim>\<open>memmove(pageBuf + dest, pageBuf + src, n)\<close>; the count is a \<open>size_t\<close>.\<close>

definition memset :: "page \<Rightarrow> byte \<Rightarrow> int \<Rightarrow> page option" where
  "memset p c n =
     (if 0 \<le> n \<and> n \<le> int (length p)
      then Some (replicate (nat n) c @ drop (nat n) p) else None)"

definition memcpy :: "page \<Rightarrow> int \<Rightarrow> byte list \<Rightarrow> int \<Rightarrow> page option" where
  "memcpy p dest src n =
     (if 0 \<le> n \<and> n \<le> int (length src) then wr_bytes p dest (take (nat n) src) else None)"

definition memmove :: "page \<Rightarrow> int \<Rightarrow> int \<Rightarrow> int \<Rightarrow> page option" where
  "memmove p dest src n = do { bs \<leftarrow> rd_bytes p src n; wr_bytes p dest bs }"

section \<open>The slotted page: header and slot directory\<close>

text \<open>
  \<^verbatim>\<open>SP_PageHeader\<close> is four shorts at offset 0 (\<open>slotCount\<close>, \<open>freeListHead\<close>,
  \<open>freePtr\<close>, \<open>attrLength\<close>), so \<open>sizeof(SP_PageHeader) = 8\<close>; \<^verbatim>\<open>SP_SlotEntry\<close> is two
  shorts (\<open>offset\<close>, \<open>length\<close>), so \<open>sizeof(SP_SlotEntry) = 4\<close>. The constant
  \<^verbatim>\<open>PF_PAGE_SIZE\<close> is declared in \<^verbatim>\<open>pf.h\<close>, which is not part of the sources at
  hand: every function that uses it takes it as the parameter \<open>ps\<close>.
\<close>

definition SP_OK :: int where "SP_OK = 0"
definition SP_ERR_NOSPACE :: int where "SP_ERR_NOSPACE = -1"
definition SP_ERR_INVALID_SLOT :: int where "SP_ERR_INVALID_SLOT = -2"
definition SP_ERR_EMPTY :: int where "SP_ERR_EMPTY = -3"
definition SP_INVALID_SLOT :: int where "SP_INVALID_SLOT = -1"

definition hdr_slotCount :: "page \<Rightarrow> int option" where
  "hdr_slotCount p = rd_short p 0"
definition hdr_freeListHead :: "page \<Rightarrow> int option" where
  "hdr_freeListHead p = rd_short p 2"
definition hdr_freePtr :: "page \<Rightarrow> int option" where
  "hdr_freePtr p = rd_short p 4"
definition hdr_attrLength :: "page \<Rightarrow> int option" where
  "hdr_attrLength p = rd_short p 6"

definition set_slotCount :: "page \<Rightarrow> int \<Rightarrow> page option" where
  "set_slotCount p v = wr_short p 0 v"
definition set_freeListHead :: "page \<Rightarrow> int \<Rightarrow> page option" where
  "set_freeListHead p v = wr_short p 2 v"
definition set_freePtr :: "page \<Rightarrow> int \<Rightarrow> page option" where
  "set_freePtr p v = wr_short p 4 v"
definition set_attrLength :: "page \<Rightarrow> int \<Rightarrow> page option" where
  "set_attrLength p v = wr_short p 6 v"

text \<open>\<^verbatim>\<open>SP_SLOT(page,idx)\<close>: the address of directory entry \<open>idx\<close>. A negative index
  leaves the buffer.\<close>

definition SP_SLOT :: "int \<Rightarrow> int" where
  "SP_SLOT idx = 8 + idx * 4"

definition slot_offset :: "page \<Rightarrow> int \<Rightarrow> int option" where
  "slot_offset p idx = (if 0 \<le> idx then rd_short p (SP_SLOT idx) else None)"
definition slot_length :: "page \<Rightarrow> int \<Rightarrow> int option" where
  "slot_length p idx = (if 0 \<le> idx then rd_short p (SP_SLOT idx + 2) else None)"
definition set_slot_offset :: "page \<Rightarrow> int \<Rightarrow> int \<Rightarrow> page option" where
  "set_slot_offset p idx v = (if 0 \<le> idx then wr_short p (SP_SLOT idx) v else None)"
definition set_slot_length :: "page \<Rightarrow> int \<Rightarrow> int \<Rightarrow> page option" where
  "set_slot_length p idx v = (if 0 \<le> idx then wr_short p (SP_SLOT idx + 2) v else None)"

definition SP_MAX_SLOTS :: "int \<Rightarrow> int" where
  "SP_MAX_SLOTS ps = to_size_t (to_size_t ps - 8) div 4"

section \<open>The codec\<close>

definition SP_InitPage :: "int \<Rightarrow> page \<Rightarrow> page option" where
  "SP_InitPage ps pageBuf = do {
     p0 \<leftarrow> memset pageBuf 0 (to_size_t ps);
     p1 \<leftarrow> set_slotCount p0 0;
     p2 \<leftarrow> set_freeListHead p1 SP_INVALID_SLOT;
     p3 \<leftarrow> set_freePtr p2 (to_short ps);
     set_attrLength p3 0
   }"

definition SP_PageFreeSpace :: "page \<Rightarrow> int option" where
  "SP_PageFreeSpace pageBuf = do {
     sc \<leftarrow> hdr_slotCount pageBuf;
     let slotBytes = to_int (to_size_t (to_size_t sc * 4));
     let used = to_int (to_size_t (8 + to_size_t slotBytes));
     fp \<leftarrow> hdr_freePtr pageBuf;
     Some (fp - used)
   }"

text \<open>\<^verbatim>\<open>SP_PageUsedBytes\<close>: the loop over the directory, from index \<open>i\<close> with the sum
  so far.\<close>

function used_loop :: "page \<Rightarrow> int \<Rightarrow> int \<Rightarrow> int \<Rightarrow> int option" where
  "used_loop p sc i used =
     (if i < sc then
        (case slot_length p i of
           None \<Rightarrow> None
         | Some l \<Rightarrow> used_loop p sc (i + 1) (if l > 0 then used + l else used))
      else Some used)"
  by pat_completeness auto
termination
  by (relation "measure (\<lambda>(p, sc, i, used). nat (sc - i))") auto

definition SP_PageUsedBytes :: "page \<Rightarrow> int option" where
  "SP_PageUsedBytes pageBuf = do {
     sc \<leftarrow> hdr_slotCount pageBuf;
     used_loop pageBuf sc 0 0
   }"

text \<open>\<^verbatim>\<open>SP_ReserveSlot\<close> returns the slot id, or \<^verbatim>\<open>SP_ERR_NOSPACE\<close>, and the page.\<close>

definition SP_ReserveSlot :: "int \<Rightarrow> page \<Rightarrow> (int \<times> page) option" where
  "SP_ReserveSlot ps pageBuf = do {
     flh \<leftarrow> hdr_freeListHead pageBuf;
     if flh \<noteq> SP_INVALID_SLOT then do {
       off \<leftarrow> slot_offset pageBuf flh;
       p1 \<leftarrow> set_freeListHead pageBuf off;
       Some (flh, p1)
     } else do {
       sc \<leftarrow> hdr_slotCount pageBuf;
       if to_size_t sc \<ge> SP_MAX_SLOTS ps then Some (SP_ERR_NOSPACE, pageBuf)
       else do {
         p1 \<leftarrow> set_slotCount pageBuf (to_short (sc + 1));
         Some (sc, p1)
       }
     }
   }"

text \<open>\<^verbatim>\<open>SP_CompactPage\<close>, loop by loop. The first loop collects the live slots into
  \<^verbatim>\<open>short order[SP_MAX_SLOTS]\<close>; \<open>order\<close> below is the filled prefix
  \<open>order[0..active)\<close>.\<close>

function collect_loop :: "int \<Rightarrow> page \<Rightarrow> int \<Rightarrow> int \<Rightarrow> int list \<Rightarrow> int list option" where
  "collect_loop ps p sc i order =
     (if i < sc then
        (case slot_length p i of
           None \<Rightarrow> None
         | Some l \<Rightarrow>
             if l > 0 then
               (if int (length order) < SP_MAX_SLOTS ps
                then collect_loop ps p sc (i + 1) (order @ [to_short i])
                else None)
             else collect_loop ps p sc (i + 1) order)
      else Some order)"
  by pat_completeness auto
termination
  by (relation "measure (\<lambda>(ps, p, sc, i, order). nat (sc - i))") auto

text \<open>The second loop pair is an exchange sort of \<open>order[0..active)\<close> by descending
  slot offset: \<open>sort_inner\<close> is the loop on \<open>j\<close>, \<open>sort_outer\<close> the loop on \<open>i\<close>.\<close>

function sort_inner :: "page \<Rightarrow> int list \<Rightarrow> nat \<Rightarrow> nat \<Rightarrow> nat \<Rightarrow> int list option" where
  "sort_inner p order active i j =
     (if j < active then do {
        offI \<leftarrow> slot_offset p (order ! i);
        offJ \<leftarrow> slot_offset p (order ! j);
        sort_inner p (if offI < offJ then order[i := order ! j, j := order ! i] else order)
          active i (Suc j)
      } else Some order)"
  by pat_completeness auto
termination
  by (relation "measure (\<lambda>(p, order, active, i, j). active - j)") auto

function sort_outer :: "page \<Rightarrow> int list \<Rightarrow> nat \<Rightarrow> nat \<Rightarrow> int list option" where
  "sort_outer p order active i =
     (if i < active then do {
        order' \<leftarrow> sort_inner p order active i (Suc i);
        sort_outer p order' active (Suc i)
      } else Some order)"
  by pat_completeness auto
termination
  by (relation "measure (\<lambda>(p, order, active, i). active - i)") auto

text \<open>The third loop moves each record to the highest unused address; it returns the
  page and the local \<open>freePtr\<close>.\<close>

fun move_loop :: "page \<Rightarrow> int \<Rightarrow> int list \<Rightarrow> (page \<times> int) option" where
  "move_loop p freePtr [] = Some (p, freePtr)"
| "move_loop p freePtr (k # ks) = do {
     len \<leftarrow> slot_length p k;
     let fp1 = to_short (freePtr - len);
     let fp2 = (if to_size_t fp1 < 8 then 8 else fp1);
     off \<leftarrow> slot_offset p k;
     p1 \<leftarrow> (if off \<noteq> fp2 then memmove p fp2 off (to_size_t len) else Some p);
     p2 \<leftarrow> set_slot_offset p1 k fp2;
     move_loop p2 fp2 ks
   }"

definition SP_CompactPage :: "int \<Rightarrow> page \<Rightarrow> page option" where
  "SP_CompactPage ps pageBuf = do {
     sc \<leftarrow> hdr_slotCount pageBuf;
     order \<leftarrow> collect_loop ps pageBuf sc 0 [];
     sorted \<leftarrow> sort_outer pageBuf order (length order) 0;
     (p1, freePtr) \<leftarrow> move_loop pageBuf (to_short ps) sorted;
     set_freePtr p1 freePtr
   }"

definition SP_EnsureSpace :: "int \<Rightarrow> page \<Rightarrow> int \<Rightarrow> (int \<times> page) option" where
  "SP_EnsureSpace ps pageBuf neededBytes = do {
     fs \<leftarrow> SP_PageFreeSpace pageBuf;
     if fs \<ge> neededBytes then Some (SP_OK, pageBuf)
     else do {
       p1 \<leftarrow> SP_CompactPage ps pageBuf;
       fs1 \<leftarrow> SP_PageFreeSpace p1;
       if fs1 \<ge> neededBytes then Some (SP_OK, p1) else Some (SP_ERR_NOSPACE, p1)
     }
   }"

text \<open>\<^verbatim>\<open>SP_InsertRecord\<close> returns the return code, the value stored through
  \<^verbatim>\<open>slotId\<close> (if any) and the page.\<close>

definition SP_InsertRecord ::
  "int \<Rightarrow> page \<Rightarrow> byte list \<Rightarrow> int \<Rightarrow> (int \<times> int option \<times> page) option" where
  "SP_InsertRecord ps pageBuf data len = do {
     flh \<leftarrow> hdr_freeListHead pageBuf;
     let needSlotBytes = (if flh = SP_INVALID_SLOT then 4 else 0);
     let needed = len + needSlotBytes;
     if len \<le> 0 then Some (SP_ERR_NOSPACE, None, pageBuf)
     else do {
       (rc, p1) \<leftarrow> SP_EnsureSpace ps pageBuf needed;
       if rc \<noteq> SP_OK then Some (SP_ERR_NOSPACE, None, p1)
       else do {
         fp \<leftarrow> hdr_freePtr p1;
         let dest = to_short (fp - len);
         if to_size_t dest < 8 then Some (SP_ERR_NOSPACE, None, p1)
         else do {
           p2 \<leftarrow> memcpy p1 dest data (to_size_t len);
           p3 \<leftarrow> set_freePtr p2 dest;
           (id, p4) \<leftarrow> SP_ReserveSlot ps p3;
           if id < 0 then Some (id, None, p4)
           else do {
             p5 \<leftarrow> set_slot_offset p4 id dest;
             p6 \<leftarrow> set_slot_length p5 id len;
             Some (SP_OK, Some (to_short id), p6)
           }
         }
       }
     }
   }"

definition SP_DeleteRecord :: "page \<Rightarrow> int \<Rightarrow> (int \<times> page) option" where
  "SP_DeleteRecord pageBuf slotId = do {
     sc \<leftarrow> hdr_slotCount pageBuf;
     if slotId < 0 \<or> slotId \<ge> sc then Some (SP_ERR_INVALID_SLOT, pageBuf)
     else do {
       len \<leftarrow> slot_length pageBuf slotId;
       if len \<le> 0 then Some (SP_ERR_INVALID_SLOT, pageBuf)
       else do {
         p1 \<leftarrow> set_slot_length pageBuf slotId (-1);
         flh \<leftarrow> hdr_freeListHead p1;
         p2 \<leftarrow> set_slot_offset p1 slotId flh;
         p3 \<leftarrow> set_freeListHead p2 slotId;
         Some (SP_OK, p3)
       }
     }
   }"

text \<open>\<^verbatim>\<open>SP_GetRecord\<close> returns the return code and, on success, the pair stored
  through \<^verbatim>\<open>dataPtr\<close> and \<^verbatim>\<open>length\<close>: the record's address in the page and its
  length.\<close>

definition SP_GetRecord :: "page \<Rightarrow> int \<Rightarrow> (int \<times> (int \<times> int) option) option" where
  "SP_GetRecord pageBuf slotId = do {
     sc \<leftarrow> hdr_slotCount pageBuf;
     if slotId < 0 \<or> slotId \<ge> sc then Some (SP_ERR_INVALID_SLOT, None)
     else do {
       len \<leftarrow> slot_length pageBuf slotId;
       if len \<le> 0 then Some (SP_ERR_INVALID_SLOT, None)
       else do {
         off \<leftarrow> slot_offset pageBuf slotId;
         Some (SP_OK, Some (off, len))
       }
     }
   }"

text \<open>The bytes a caller reads through the pointer and length \<^verbatim>\<open>SP_GetRecord\<close>
  and \<^verbatim>\<open>SP_GetNextRecord\<close> hand out.\<close>

definition record_bytes :: "page \<Rightarrow> (int \<times> int) \<Rightarrow> byte list option" where
  "record_bytes p r = rd_bytes p (fst r) (snd r)"

text \<open>\<^verbatim>\<open>SP_GetNextRecord\<close>: \<open>scan_loop\<close> is its \<^verbatim>\<open>for\<close> loop and returns the index
  of the first live slot from \<open>i\<close> on, if there is one. The cursor argument is \<open>None\<close>
  for a \<^verbatim>\<open>NULL\<close> pointer. The result is the return code, the value stored through
  \<^verbatim>\<open>cursor\<close> (when that is not \<^verbatim>\<open>NULL\<close>) and, on success, the pair stored through
  \<^verbatim>\<open>dataPtr\<close> and \<^verbatim>\<open>length\<close>.\<close>

function scan_loop :: "page \<Rightarrow> int \<Rightarrow> int \<Rightarrow> int option option" where
  "scan_loop p sc i =
     (if i < sc then
        (case slot_length p i of
           None \<Rightarrow> None
         | Some l \<Rightarrow> if l > 0 then Some (Some i) else scan_loop p sc (i + 1))
      else Some None)"
  by pat_completeness auto
termination
  by (relation "measure (\<lambda>(p, sc, i). nat (sc - i))") auto

definition SP_GetNextRecord ::
  "page \<Rightarrow> int option \<Rightarrow> (int \<times> int \<times> (int \<times> int) option) option" where
  "SP_GetNextRecord pageBuf cursor = do {
     sc \<leftarrow> hdr_slotCount pageBuf;
     let start = (case cursor of None \<Rightarrow> 0
                  | Some c \<Rightarrow> if c < 0 then 0 else to_short (c + 1));
     found \<leftarrow> scan_loop pageBuf sc start;
     case found of
       Some i \<Rightarrow> do {
         off \<leftarrow> slot_offset pageBuf i;
         len \<leftarrow> slot_length pageBuf i;
         Some (SP_OK, to_short i, Some (off, len))
       }
     | None \<Rightarrow> Some (SP_ERR_EMPTY, - 1, None)
   }"

section \<open>The slotted-page invariants\<close>

text \<open>The header fields and directory entries of a page that is large enough to hold
  them, read without the bounds check.\<close>

definition slotCount :: "page \<Rightarrow> int" where "slotCount p = get_short p 0"
definition freeListHead :: "page \<Rightarrow> int" where "freeListHead p = get_short p 2"
definition freePtr :: "page \<Rightarrow> int" where "freePtr p = get_short p 4"
definition slotOff :: "page \<Rightarrow> int \<Rightarrow> int" where "slotOff p i = get_short p (SP_SLOT i)"
definition slotLen :: "page \<Rightarrow> int \<Rightarrow> int" where "slotLen p i = get_short p (SP_SLOT i + 2)"

text \<open>A slot is live when its length is positive; any other slot is a tombstone.\<close>

definition live :: "page \<Rightarrow> int \<Rightarrow> bool" where "live p i \<longleftrightarrow> 0 < slotLen p i"

text \<open>The slot directory lies inside the buffer.\<close>

definition dir_ok :: "page \<Rightarrow> bool" where
  "dir_ok p \<longleftrightarrow> 0 \<le> slotCount p \<and> 8 + 4 * slotCount p \<le> int (length p)"

text \<open>The tombstone chain from slot \<open>h\<close>: \<open>is_chain p h xs\<close> holds when following the
  offset fields from \<open>h\<close> visits exactly the slots \<open>xs\<close>, all of them tombstones of the
  directory, and ends at the sentinel \<open>-1\<close>. \<open>chain_walk\<close> follows the chain for at most
  \<open>n\<close> steps.\<close>

fun is_chain :: "page \<Rightarrow> int \<Rightarrow> int list \<Rightarrow> bool" where
  "is_chain p h [] \<longleftrightarrow> h = - 1"
| "is_chain p h (x # xs) \<longleftrightarrow>
     h = x \<and> 0 \<le> x \<and> x < slotCount p \<and> \<not> live p x \<and> is_chain p (slotOff p x) xs"

fun chain_walk :: "page \<Rightarrow> nat \<Rightarrow> int \<Rightarrow> int list option" where
  "chain_walk p 0 h = (if h = - 1 then Some [] else None)"
| "chain_walk p (Suc n) h =
     (if h = - 1 then Some []
      else if 0 \<le> h \<and> h < slotCount p \<and> \<not> live p h
      then map_option (Cons h) (chain_walk p n (slotOff p h))
      else None)"

text \<open>
  The invariants of a slotted page of \<open>ps\<close> bytes: the buffer has the page size, which a
  \<open>short\<close> can hold; the slot directory ends at or below \<open>freePtr\<close>; every live record lies
  in \<open>[freePtr, ps)\<close>; two live records do not overlap; the tombstone chain from
  \<open>freeListHead\<close> ends, and visits only tombstones, each once.
\<close>

definition sp_inv :: "int \<Rightarrow> page \<Rightarrow> bool" where
  "sp_inv ps p \<longleftrightarrow>
     8 \<le> ps \<and> ps \<le> 32767 \<and> int (length p) = ps \<and>
     0 \<le> slotCount p \<and> 8 + 4 * slotCount p \<le> freePtr p \<and> freePtr p \<le> ps \<and>
     (\<forall>i\<in>{0..<slotCount p}. live p i \<longrightarrow>
        freePtr p \<le> slotOff p i \<and> slotOff p i + slotLen p i \<le> ps) \<and>
     (\<forall>i\<in>{0..<slotCount p}. \<forall>j\<in>{0..<slotCount p}. i \<noteq> j \<and> live p i \<and> live p j \<longrightarrow>
        slotOff p i + slotLen p i \<le> slotOff p j \<or> slotOff p j + slotLen p j \<le> slotOff p i) \<and>
     (case chain_walk p (nat (slotCount p)) (freeListHead p) of
        None \<Rightarrow> False | Some xs \<Rightarrow> distinct xs)"

text \<open>The bytes of the record in slot \<open>i\<close>.\<close>

definition slot_bytes :: "page \<Rightarrow> int \<Rightarrow> byte list" where
  "slot_bytes p i = take (nat (slotLen p i)) (drop (nat (slotOff p i)) p)"

text \<open>A small page for examples: 16 bytes, one live record \<open>[1, 2]\<close> in slot 0.\<close>

definition example_page :: page where
  "example_page = [1, 0, 255, 255, 14, 0, 0, 0, 14, 0, 2, 0, 0, 0, 1, 2]"

text \<open>Predicates for the proofs about compaction. \<open>packed p f ks\<close>: the records of the
  slots \<open>ks\<close> lie one below the other, in this order, from address \<open>f\<close> downwards.
  \<open>live_slots\<close> are the live slots of the directory in ascending order, \<open>live_bytes\<close>
  the sum of their lengths.\<close>

fun packed :: "page \<Rightarrow> int \<Rightarrow> int list \<Rightarrow> bool" where
  "packed p f [] \<longleftrightarrow> True"
| "packed p f (k # ks) \<longleftrightarrow> slotOff p k = f - slotLen p k \<and> packed p (f - slotLen p k) ks"

definition live_slots :: "page \<Rightarrow> int list" where
  "live_slots p = filter (live p) [0..slotCount p - 1]"

definition live_bytes :: "page \<Rightarrow> int" where
  "live_bytes p = sum_list (map (slotLen p) (live_slots p))"

text \<open>\<open>same_records p q\<close>: the page \<open>q\<close> has the directory size, the tombstone chain, the
  slot lengths and the record contents of \<open>p\<close>; only the offsets of live slots may
  differ.\<close>

definition same_records :: "page \<Rightarrow> page \<Rightarrow> bool" where
  "same_records p q \<longleftrightarrow>
     slotCount q = slotCount p \<and> freeListHead q = freeListHead p \<and>
     (\<forall>i. 0 \<le> i \<and> i < slotCount p \<longrightarrow> slotLen q i = slotLen p i) \<and>
     (\<forall>i. 0 \<le> i \<and> i < slotCount p \<and> \<not> live p i \<longrightarrow> slotOff q i = slotOff p i) \<and>
     (\<forall>i. 0 \<le> i \<and> i < slotCount p \<and> live p i \<longrightarrow> slot_bytes q i = slot_bytes p i)"

section \<open>Sequences of calls\<close>

text \<open>A call of the codec on a page, and a sequence of calls, each on the page the
  previous one left. The return codes are dropped; \<open>None\<close> is an access outside a
  buffer.\<close>

datatype sp_call = Insert "byte list" int | Delete int

fun sp_apply :: "int \<Rightarrow> page \<Rightarrow> sp_call \<Rightarrow> page option" where
  "sp_apply ps p (Insert data len) = map_option (\<lambda>(rc, slotId, p'). p') (SP_InsertRecord ps p data len)"
| "sp_apply ps p (Delete slotId) = map_option (\<lambda>(rc, p'). p') (SP_DeleteRecord p slotId)"

fun sp_run :: "int \<Rightarrow> page \<Rightarrow> sp_call list \<Rightarrow> page option" where
  "sp_run ps p [] = Some p"
| "sp_run ps p (c # cs) = (case sp_apply ps p c of None \<Rightarrow> None | Some p' \<Rightarrow> sp_run ps p' cs)"

text \<open>The arguments of a call are well-formed when the length is a \<open>short\<close> and the data
  buffer of an insertion holds at least that many bytes.\<close>

fun call_ok :: "sp_call \<Rightarrow> bool" where
  "call_ok (Insert data len) \<longleftrightarrow> - 32768 \<le> len \<and> len \<le> 32767 \<and> nat len \<le> length data"
| "call_ok (Delete slotId) \<longleftrightarrow> - 32768 \<le> slotId \<and> slotId \<le> 32767"

text \<open>Inserting the records of a list one after the other: the result is the final
  page and the slot ids, provided every insertion returned \<^verbatim>\<open>SP_OK\<close>.\<close>

fun insert_all :: "int \<Rightarrow> page \<Rightarrow> (byte list \<times> int) list \<Rightarrow> (page \<times> int list) option" where
  "insert_all ps p [] = Some (p, [])"
| "insert_all ps p ((bytes, len) # rest) =
     (case SP_InsertRecord ps p bytes len of
        Some (rc, Some slotId, p1) \<Rightarrow>
          if rc = SP_OK then
            (case insert_all ps p1 rest of
               Some (p2, ids) \<Rightarrow> Some (p2, slotId # ids)
             | None \<Rightarrow> None)
          else None
      | _ \<Rightarrow> None)"

text \<open>A page of 32 bytes after inserting \<open>[1, 2, 3, 4]\<close> and \<open>[11, \<dots>, 16]\<close> and deleting
  slot 0: slot 0 is a tombstone and heads the chain, slot 1 holds its six bytes at
  offset 22, and the four bytes at offset 28 are garbage. \<open>compacted_page\<close> is the same
  page after compaction: the record of slot 1 lies at offset 26.\<close>

definition fragmented_page :: page where
  "fragmented_page =
     [2, 0, 0, 0, 22, 0, 0, 0, 255, 255, 255, 255, 22, 0, 6, 0, 0, 0, 0, 0, 0, 0,
      11, 12, 13, 14, 15, 16, 1, 2, 3, 4]"

definition compacted_page :: page where
  "compacted_page =
     [2, 0, 0, 0, 26, 0, 0, 0, 255, 255, 255, 255, 26, 0, 6, 0, 0, 0, 0, 0, 0, 0,
      11, 12, 13, 14, 11, 12, 13, 14, 15, 16]"

text \<open>The empty page of 32 bytes, and the page after inserting four bytes and then six
  bytes into it.\<close>

definition empty_page :: page where
  "empty_page =
     [0, 0, 255, 255, 32, 0, 0, 0, 0, 0, 0, 0, 0, 0, 0, 0, 0, 0, 0, 0, 0, 0,
      0, 0, 0, 0, 0, 0, 0, 0, 0, 0]"

definition two_record_page :: page where
  "two_record_page =
     [2, 0, 255, 255, 22, 0, 0, 0, 28, 0, 4, 0, 22, 0, 6, 0, 0, 0, 0, 0, 0, 0,
      11, 12, 13, 14, 15, 16, 1, 2, 3, 4]"

section \<open>The record loader (student_store)\<close>

text \<open>
  Modelled from the spec: the paged-file layer (\<^verbatim>\<open>pf.c\<close>, \<^verbatim>\<open>buf.c\<close>) is not part of
  the sources at hand. A file is the sequence of its data pages in page-number order.
  \<^verbatim>\<open>PF_AllocPage\<close> appends a page, whose buffer has \<^verbatim>\<open>PF_PAGE_SIZE\<close> bytes of
  undefined contents, and returns its number; \<^verbatim>\<open>PF_GetThisPage\<close> returns the page of a
  number; \<^verbatim>\<open>PF_GetFirstPage\<close> and \<^verbatim>\<open>PF_GetNextPage\<close> visit the pages in order and then
  report end-of-file; what a caller writes into a pinned buffer is the page's contents
  from then on. No call of the layer fails.
\<close>

type_synonym pf_file = "page list"

definition PF_AllocPage :: "pf_file \<Rightarrow> page \<Rightarrow> int \<times> pf_file" where
  "PF_AllocPage file undefined_buf = (int (length file), file @ [undefined_buf])"

definition PF_GetThisPage :: "pf_file \<Rightarrow> int \<Rightarrow> page option" where
  "PF_GetThisPage file pageNum =
     (if 0 \<le> pageNum \<and> pageNum < int (length file) then Some (file ! nat pageNum) else None)"

definition pf_update :: "pf_file \<Rightarrow> int \<Rightarrow> page \<Rightarrow> pf_file" where
  "pf_update file pageNum buf = file[nat pageNum := buf]"

text \<open>\<^verbatim>\<open>StudentStore\<close>; the file descriptor is left out, the open file is passed along
  with the store.\<close>

record StudentStore =
  lastPage :: int
  pageCount :: int
  recordCount :: int

text \<open>\<^verbatim>\<open>insertRecord\<close>: \<open>buf1\<close> and \<open>buf2\<close> are the undefined contents of the buffers
  the two calls of \<^verbatim>\<open>PF_AllocPage\<close> hand out. The result is the return code, the store
  and the file.\<close>

definition insertRecord ::
  "int \<Rightarrow> page \<Rightarrow> page \<Rightarrow> StudentStore \<Rightarrow> pf_file \<Rightarrow> byte list \<Rightarrow> int \<Rightarrow>
   (int \<times> StudentStore \<times> pf_file) option" where
  "insertRecord ps buf1 buf2 store file data len = do {
     (store1, file1, pageNum, pageBuf) \<leftarrow>
       (if lastPage store < 0 then do {
          let (pageNum, file1) = PF_AllocPage file buf1;
          pageBuf \<leftarrow> SP_InitPage ps buf1;
          Some (store\<lparr>lastPage := pageNum, pageCount := pageCount store + 1\<rparr>,
                pf_update file1 pageNum pageBuf, pageNum, pageBuf)
        } else do {
          let pageNum = lastPage store;
          pageBuf \<leftarrow> PF_GetThisPage file pageNum;
          Some (store, file, pageNum, pageBuf)
        });
     (rc, sid, pageBuf1) \<leftarrow> SP_InsertRecord ps pageBuf data len;
     let file2 = pf_update file1 pageNum pageBuf1;
     if rc = SP_OK then Some (SP_OK, store1\<lparr>recordCount := recordCount store1 + 1\<rparr>, file2)
     else do {
       let (pageNum2, file3) = PF_AllocPage file2 buf2;
       pageBuf2 \<leftarrow> SP_InitPage ps buf2;
       (rc2, sid2, pageBuf3) \<leftarrow> SP_InsertRecord ps pageBuf2 data len;
       let file4 = pf_update file3 pageNum2 pageBuf3;
       if rc2 \<noteq> SP_OK then Some (rc2, store1, file4)
       else Some (SP_OK,
         store1\<lparr>pageCount := pageCount store1 + 1, lastPage := pageNum2,
                recordCount := recordCount store1 + 1\<rparr>, file4)
     }
   }"





definition strlen :: "string \<Rightarrow> nat" where
  "strlen s = length (takeWhile (\<lambda>c. c \<noteq> CHR 0x00) s)"

text \<open>The body of the loop: \<open>strip_eol\<close> is the inner \<^verbatim>\<open>while\<close> loop on the \<open>len\<close>
  characters \<^verbatim>\<open>strlen\<close> counted, \<open>loader_line\<close> what the body decides for the buffer
  \<open>line\<close>.\<close>

definition isdigit :: "char \<Rightarrow> bool" where
  "isdigit c \<longleftrightarrow> c \<in> set ''0123456789''"

definition is_eol :: "char \<Rightarrow> bool" where
  "is_eol c \<longleftrightarrow> c = CHR 0x0A \<or> c = CHR 0x0D"

function strip_eol :: "string \<Rightarrow> string" where
  "strip_eol line =
     (if line \<noteq> [] \<and> (last line = CHR 0x0A \<or> last line = CHR 0x0D)
      then strip_eol (butlast line) else line)"
  by pat_completeness auto
termination
  by (relation "measure length") auto

datatype line_action = Skip | TooLong | InsertLine string

definition loader_line :: "string \<Rightarrow> line_action" where
  "loader_line line =
     (let l = strip_eol (take (strlen line) line) in
      if length l = 0 then Skip
      else if \<not> isdigit (l ! 0) then Skip
      else if length l \<ge> 32760 then TooLong
      else InsertLine l)"

definition line_bytes :: "string \<Rightarrow> byte list" where
  "line_bytes l = map of_char l"

text \<open>The loop over the buffers \<^verbatim>\<open>fgets\<close> delivers, which for an input file \<open>input\<close>
  are \<open>read_lines input\<close>: \<open>Inl 1\<close> is the exit code of an aborted run, \<open>Inr\<close> the store,
  the file and \<^verbatim>\<open>totalRecords\<close> after the last line. \<open>bufs\<close> gives the undefined contents
  of the buffers handed out while the \<open>n\<close>-th line is inserted.\<close>

fun load_loop ::
  "int \<Rightarrow> (nat \<Rightarrow> page \<times> page) \<Rightarrow> nat \<Rightarrow> StudentStore \<Rightarrow> pf_file \<Rightarrow> int \<Rightarrow> string list \<Rightarrow>
   (int + StudentStore \<times> pf_file \<times> int) option" where
  "load_loop ps bufs n store file totalRecords [] = Some (Inr (store, file, totalRecords))"
| "load_loop ps bufs n store file totalRecords (line # lines) =
     (case loader_line line of
        Skip \<Rightarrow> load_loop ps bufs (Suc n) store file totalRecords lines
      | TooLong \<Rightarrow> Some (Inl 1)
      | InsertLine l \<Rightarrow> do {
          (rc, store1, file1) \<leftarrow>
            insertRecord ps (fst (bufs n)) (snd (bufs n)) store file (line_bytes l)
              (to_short (int (length l)));
          if rc \<noteq> SP_OK then Some (Inl 1)
          else load_loop ps bufs (Suc n) store1 file1 (totalRecords + 1) lines
        })"




text \<open>\<^verbatim>\<open>deleteEvery\<close>: \<open>delete_page_loop\<close> is the inner \<^verbatim>\<open>while\<close> loop on one page,
  \<open>delete_pages\<close> the outer loop over the pages of the file, with the running
  \<open>counter\<close> and \<open>deleted\<close>. \<^verbatim>\<open>scanCount\<close> is alike.\<close>

partial_function (option) delete_page_loop ::
  "int \<Rightarrow> page \<Rightarrow> int \<Rightarrow> int \<Rightarrow> int \<Rightarrow> bool \<Rightarrow> (page \<times> int \<times> int \<times> bool) option" where
  "delete_page_loop step p cursor counter deleted dirty = do {
     (rc, cursor1, out) \<leftarrow> SP_GetNextRecord p (Some cursor);
     if rc = SP_OK then
       (if step > 0 \<and> (counter + 1) mod step = 0 then do {
          (rc2, p1) \<leftarrow> SP_DeleteRecord p cursor1;
          if rc2 = SP_OK
          then delete_page_loop step p1 cursor1 (counter + 1) (deleted + 1) True
          else delete_page_loop step p1 cursor1 (counter + 1) deleted dirty
        } else delete_page_loop step p cursor1 (counter + 1) deleted dirty)
     else Some (p, counter, deleted, dirty)
   }"

fun delete_pages :: "int \<Rightarrow> pf_file \<Rightarrow> int \<Rightarrow> int \<Rightarrow> (pf_file \<times> int \<times> int) option" where
  "delete_pages step [] counter deleted = Some ([], counter, deleted)"
| "delete_pages step (p # file) counter deleted = do {
     (p1, counter1, deleted1, dirty) \<leftarrow> delete_page_loop step p (- 1) counter deleted False;
     (file1, counter2, deleted2) \<leftarrow> delete_pages step file counter1 deleted1;
     Some (p1 # file1, counter2, deleted2)
   }"

definition deleteEvery :: "pf_file \<Rightarrow> int \<Rightarrow> (pf_file \<times> int) option" where
  "deleteEvery file step = do {
     (file1, counter, deleted) \<leftarrow> delete_pages step file 0 0;
     Some (file1, deleted)
   }"

partial_function (option) scan_page_loop :: "page \<Rightarrow> int \<Rightarrow> int \<Rightarrow> int option" where
  "scan_page_loop p cursor cnt = do {
     (rc, cursor1, out) \<leftarrow> SP_GetNextRecord p (Some cursor);
     if rc = SP_OK then scan_page_loop p cursor1 (cnt + 1) else Some cnt
   }"

fun scan_pages :: "pf_file \<Rightarrow> int \<Rightarrow> int option" where
  "scan_pages [] cnt = Some cnt"
| "scan_pages (p # file) cnt = do {
     cnt1 \<leftarrow> scan_page_loop p (- 1) cnt;
     scan_pages file cnt1
   }"

definition scanCount :: "pf_file \<Rightarrow> int option" where
  "scanCount file = scan_pages file 0"

text \<open>The number of live records of a file.\<close>

definition file_records :: "pf_file \<Rightarrow> int" where
  "file_records file = (\<Sum>p\<leftarrow>file. int (length (live_slots p)))"

text \<open>The live slots of a page from index \<open>i\<close> on, in scan order.\<close>

definition live_from :: "page \<Rightarrow> int \<Rightarrow> int list" where
  "live_from p i = filter (live p) [i..slotCount p - 1]"

text \<open>What the loader keeps true of its store between two lines: there is no current
  page yet, or the current page is a page of the file and satisfies the page
  invariant.\<close>

definition store_ok :: "int \<Rightarrow> StudentStore \<Rightarrow> pf_file \<Rightarrow> bool" where
  "store_ok ps store file \<longleftrightarrow>
     lastPage store < 0 \<or>
     (lastPage store < int (length file) \<and> sp_inv ps (file ! nat (lastPage store)))"

text \<open>A run on a page size of 4096 bytes: every buffer the paged-file layer hands out is
  zeroed, the store is new, and the input has one line of 4085 digits.\<close>

definition zero_bufs :: "nat \<Rightarrow> page \<times> page" where
  "zero_bufs n = (replicate 4096 0, replicate 4096 0)"

definition new_store :: StudentStore where
  "new_store = \<lparr>lastPage = - 1, pageCount = 0, recordCount = 0\<rparr>"

definition small_bufs :: "nat \<Rightarrow> page \<times> page" where
  "small_bufs n = (replicate 32 0, replicate 32 0)"

definition long_line :: string where
  "long_line = replicate 4085 (CHR ''1'') @ [CHR 0x0A]"

section \<open>The index-construction comparator (index_benchmark)\<close>

text \<open>
  \<^verbatim>\<open>main\<close> of \<^verbatim>\<open>index_benchmark.c\<close> with its helpers \<^verbatim>\<open>buildIndex\<close> and
  \<^verbatim>\<open>runQueries\<close>. What the program does not decide itself is read from an environment:
  the C library (\<^verbatim>\<open>atoi\<close>, \<^verbatim>\<open>malloc\<close>, the file system) and the access-method and
  paged-file layers, which are not part of the sources at hand. Each field says how the
  call with that argument ends.
\<close>

record bench_env =
  env_atoi :: "string \<Rightarrow> int"
  env_loadRecords :: "string \<Rightarrow> int \<times> int"
  env_copyRecords_ok :: bool
  env_selectQueries_ok :: bool
  env_AM_CreateIndex_ok :: "string \<Rightarrow> bool"
  env_PF_OpenFile_build_ok :: "string \<Rightarrow> bool"
  env_AM_InsertEntry_ok :: "string \<Rightarrow> nat \<Rightarrow> bool"
  env_PF_OpenFile_query_ok :: "string \<Rightarrow> bool"
  env_AM_OpenIndexScan_ok :: "string \<Rightarrow> nat \<Rightarrow> bool"
  env_writeMetrics :: "string \<Rightarrow> int"

text \<open>\<open>env_loadRecords path\<close> is the return code of \<^verbatim>\<open>loadRecords\<close> and the number of
  records it read; \<open>env_AM_InsertEntry_ok f i\<close> says whether the \<open>i\<close>-th insertion into
  the index file \<open>f\<close> returns \<^verbatim>\<open>AME_OK\<close>, \<open>env_AM_OpenIndexScan_ok f i\<close> whether the
  \<open>i\<close>-th scan of \<open>f\<close> opens.\<close>

record bench_opts =
  dataPath :: "string option"
  relBase :: string
  metricsPath :: string
  bufferSize :: int
  policyStr :: string
  queryCount :: int

definition default_opts :: bench_opts where
  "default_opts = \<lparr>dataPath = None, relBase = ''student_index'',
     metricsPath = ''../results/index_metrics.csv'', bufferSize = 60,
     policyStr = ''lru'', queryCount = 500\<rparr>"

text \<open>The option loop over \<^verbatim>\<open>argv[1..]\<close>: \<open>Inl\<close> is the exit code of a run that ends in
  the loop.\<close>

fun parse_args :: "bench_env \<Rightarrow> string list \<Rightarrow> bench_opts \<Rightarrow> int + bench_opts" where
  "parse_args env [] opts = Inr opts"
| "parse_args env [a] opts = (if a = ''--help'' then Inl 0 else Inl 1)"
| "parse_args env (a # v # rest) opts =
     (if a = ''--data'' then parse_args env rest (opts\<lparr>dataPath := Some v\<rparr>)
      else if a = ''--rel-base'' then parse_args env rest (opts\<lparr>relBase := v\<rparr>)
      else if a = ''--metrics'' then parse_args env rest (opts\<lparr>metricsPath := v\<rparr>)
      else if a = ''--buffers'' then parse_args env rest (opts\<lparr>bufferSize := env_atoi env v\<rparr>)
      else if a = ''--policy'' then parse_args env rest (opts\<lparr>policyStr := v\<rparr>)
      else if a = ''--queries'' then parse_args env rest (opts\<lparr>queryCount := env_atoi env v\<rparr>)
      else if a = ''--help'' then Inl 0
      else Inl 1)"

text \<open>\<^verbatim>\<open>snprintf(buf, 256, "%s%s", a, b)\<close>.\<close>

definition snprintf256 :: "string \<Rightarrow> string \<Rightarrow> string" where
  "snprintf256 a b = take 255 (a @ b)"

definition buildIndex :: "bench_env \<Rightarrow> string \<Rightarrow> int \<Rightarrow> int" where
  "buildIndex env relName ncount =
     (let fname = snprintf256 relName ''.0'' in
      if \<not> env_AM_CreateIndex_ok env relName then - 1
      else if \<not> env_PF_OpenFile_build_ok env fname then - 1
      else if \<exists>i\<in>set [0..<nat ncount]. \<not> env_AM_InsertEntry_ok env fname i then - 1
      else 0)"

definition runQueries :: "bench_env \<Rightarrow> string \<Rightarrow> int \<Rightarrow> int" where
  "runQueries env relName nqueries =
     (let fname = snprintf256 relName ''.0'' in
      if \<not> env_PF_OpenFile_query_ok env fname then - 1
      else if \<exists>i\<in>set [0..<nat nqueries]. \<not> env_AM_OpenIndexScan_ok env fname i then - 1
      else 0)"

text \<open>The label \<^verbatim>\<open>cleanup:\<close> frees the arrays and ends with \<^verbatim>\<open>return 0\<close>.\<close>

definition cleanup :: int where
  "cleanup = 0"

definition index_benchmark_main :: "bench_env \<Rightarrow> string list \<Rightarrow> int" where
  "index_benchmark_main env argv =
     (case parse_args env (tl argv) default_opts of
        Inl rc \<Rightarrow> rc
      | Inr opts \<Rightarrow>
          (case dataPath opts of
             None \<Rightarrow> 1
           | Some path \<Rightarrow>
               let (rc, nrecords) = env_loadRecords env path in
               if rc \<noteq> 0 then 1
               else if nrecords = 0 then 1
               else if \<not> env_copyRecords_ok env then 1
               else if \<not> env_selectQueries_ok env then 1
               else if buildIndex env (snprintf256 (relBase opts) ''_post'') nrecords \<noteq> 0
                 then cleanup
               else if runQueries env (snprintf256 (relBase opts) ''_post'') (queryCount opts) \<noteq> 0
                 then cleanup
               else if buildIndex env (snprintf256 (relBase opts) ''_inc'') nrecords \<noteq> 0
                 then cleanup
               else if runQueries env (snprintf256 (relBase opts) ''_inc'') (queryCount opts) \<noteq> 0
                 then cleanup
               else if buildIndex env (snprintf256 (relBase opts) ''_bulk'') nrecords \<noteq> 0
                 then cleanup
               else if runQueries env (snprintf256 (relBase opts) ''_bulk'') (queryCount opts) \<noteq> 0
                 then cleanup
               else let w = env_writeMetrics env (metricsPath opts) in cleanup))"

text \<open>An environment in which the data set loads and every other call succeeds,
  except that \<^verbatim>\<open>AM_CreateIndex\<close> fails.\<close>

definition failing_env :: bench_env where
  "failing_env = \<lparr>env_atoi = (\<lambda>s. 0), env_loadRecords = (\<lambda>path. (0, 3)),
     env_copyRecords_ok = True, env_selectQueries_ok = True,
     env_AM_CreateIndex_ok = (\<lambda>relName. False),
     env_PF_OpenFile_build_ok = (\<lambda>f. True), env_AM_InsertEntry_ok = (\<lambda>f i. True),
     env_PF_OpenFile_query_ok = (\<lambda>f. True), env_AM_OpenIndexScan_ok = (\<lambda>f i. True),
     env_writeMetrics = (\<lambda>path. 0)\<rparr>"

section \<open>Bytes, shorts and conversions\<close>

lemma to_short_range: "- 32768 \<le> to_short x \<and> to_short x \<le> 32767"
  unfolding to_short_def
  using pos_mod_bound [of 65536 "x + 32768"] pos_mod_sign [of 65536 "x + 32768"] by linarith

lemma to_short_id: "- 32768 \<le> x \<Longrightarrow> x \<le> 32767 \<Longrightarrow> to_short x = x"
  unfolding to_short_def by (simp add: mod_pos_pos_trivial)

lemma to_size_t_id: "0 \<le> x \<Longrightarrow> x < 18446744073709551616 \<Longrightarrow> to_size_t x = x"
  unfolding to_size_t_def by simp

lemma to_int_id: "- 2147483648 \<le> x \<Longrightarrow> x \<le> 2147483647 \<Longrightarrow> to_int x = x"
  unfolding to_int_def by (simp add: mod_pos_pos_trivial)

lemma to_size_t_neg: "- 18446744073709551616 \<le> x \<Longrightarrow> x < 0 \<Longrightarrow> to_size_t x = x + 18446744073709551616"
proof -
  assume a: "- 18446744073709551616 \<le> x" "x < 0"
  have "(x + 18446744073709551616) mod 18446744073709551616 = x + 18446744073709551616"
    using a by (intro mod_pos_pos_trivial) auto
  then show ?thesis unfolding to_size_t_def by (simp only: mod_add_self2)
qed

lemma get_short_range: "- 32768 \<le> get_short p a \<and> get_short p a \<le> 32767"
  unfolding get_short_def by (rule to_short_range)

lemma length_put_short [simp]: "length (put_short p a v) = length p"
  by (simp add: put_short_def)

lemma divmod_256: "(v::int) mod 256 + 256 * ((v div 256) mod 256) = v mod 65536"
proof -
  have "v mod (256 * 256) = 256 * ((v div 256) mod 256) + v mod 256"
    by (rule zmod_zmult2_eq) simp
  then show ?thesis by simp
qed

lemma short_bytes: 
  "uint (word_of_int v :: byte) + 256 * uint (word_of_int (v div 256) :: byte) = v mod 65536"
proof -
  have "uint (word_of_int v :: byte) = v mod 256"
    by (simp add: uint_word_of_int)
  moreover have "uint (word_of_int (v div 256) :: byte) = (v div 256) mod 256"
    by (simp add: uint_word_of_int)
  ultimately show ?thesis using divmod_256 [of v] by simp
qed

lemma to_short_mod: "to_short (v mod 65536) = to_short v"
  unfolding to_short_def by (metis mod_add_left_eq)

lemma get_put_same:
  "0 \<le> a \<Longrightarrow> a + 2 \<le> int (length p) \<Longrightarrow> get_short (put_short p a v) a = to_short v"
  unfolding get_short_def put_short_def
  by (simp add: nat_add_distrib short_bytes to_short_mod)

lemma nth_put_short:
  "0 \<le> a \<Longrightarrow> 0 \<le> b \<Longrightarrow> b \<noteq> a \<Longrightarrow> b \<noteq> a + 1 \<Longrightarrow> put_short p a v ! nat b = p ! nat b"
  unfolding put_short_def by simp

lemma get_short_cong:
  "p ! nat a = q ! nat a \<Longrightarrow> p ! nat (a + 1) = q ! nat (a + 1) \<Longrightarrow> get_short p a = get_short q a"
  unfolding get_short_def by simp

lemma get_put_other:
  "0 \<le> a \<Longrightarrow> 0 \<le> b \<Longrightarrow> b + 1 < a \<or> a + 1 < b \<Longrightarrow>
   get_short (put_short p a v) b = get_short p b"
  by (rule get_short_cong) (auto simp: nth_put_short)

lemma bytes_of_short:
  fixes x y :: byte
  defines "s \<equiv> to_short (uint x + 256 * uint y)"
  shows "word_of_int s = x" and "word_of_int (s div 256) = y"
proof -
  define z where "z = uint x + 256 * uint y"
  have x: "0 \<le> uint x" "uint x < 256" using uint_lt2p [of x] by simp_all
  have y: "0 \<le> uint y" "uint y < 256" using uint_lt2p [of y] by simp_all
  have zd: "z div 256 = uint y" unfolding z_def using x by simp
  have w256: "(256 :: byte) = 0" by simp
  have w65536: "(65536 :: byte) = 0" by simp
  have zw: "(word_of_int z :: byte) = x" unfolding z_def by (simp add: w256)
  have zr: "0 \<le> z" "z < 65536" unfolding z_def using x y by simp_all
  have "s = z \<or> s = z - 65536"
  proof (cases "z < 32768")
    case True then show ?thesis unfolding s_def z_def [symmetric] using zr by (simp add: to_short_id)
  next
    case False
    have e: "z + 32768 = (z - 32768) + 65536" by simp
    have "(z + 32768) mod 65536 = (z - 32768) mod 65536"
      unfolding e by (rule mod_add_self2)
    also have "\<dots> = z - 32768" using False zr by simp
    finally show ?thesis unfolding s_def z_def [symmetric] to_short_def by simp
  qed
  then show "word_of_int s = x"
  proof
    assume "s = z" then show ?thesis using zw by simp
  next
    assume "s = z - 65536" then show ?thesis using zw by (simp add: w65536)
  qed
  from \<open>s = z \<or> s = z - 65536\<close> show "word_of_int (s div 256) = y"
  proof
    assume "s = z" then show ?thesis using zd by simp
  next
    assume s: "s = z - 65536"
    have "(z - 65536) div 256 = z div 256 - 256" by simp
    then show ?thesis using zd s by (simp add: w256)
  qed
qed

lemma put_get_id:
  "0 \<le> a \<Longrightarrow> a + 2 \<le> int (length p) \<Longrightarrow> put_short p a (get_short p a) = p"
  unfolding put_short_def get_short_def by (simp add: bytes_of_short)

lemma nth_wr:
  assumes "0 \<le> a" "a + int (length bs) \<le> int (length p)" "0 \<le> b" "b < int (length p)"
  shows "(take (nat a) p @ bs @ drop (nat a + length bs) p) ! nat b =
         (if a \<le> b \<and> b < a + int (length bs) then bs ! nat (b - a) else p ! nat b)"
  using assms by (auto simp: nth_append nat_diff_distrib nat_less_iff nat_le_iff)

lemma take_drop_eq_iff:
  assumes "0 \<le> a" "0 \<le> b" "0 \<le> n" "a + n \<le> int (length p)" "b + n \<le> int (length q)"
  shows "take (nat n) (drop (nat a) p) = take (nat n) (drop (nat b) q) \<longleftrightarrow>
         (\<forall>i. 0 \<le> i \<and> i < n \<longrightarrow> p ! nat (a + i) = q ! nat (b + i))"
proof
  assume eq: "take (nat n) (drop (nat a) p) = take (nat n) (drop (nat b) q)"
  show "\<forall>i. 0 \<le> i \<and> i < n \<longrightarrow> p ! nat (a + i) = q ! nat (b + i)"
  proof (intro allI impI)
    fix i assume i: "0 \<le> i \<and> i < n"
    have "take (nat n) (drop (nat a) p) ! nat i = take (nat n) (drop (nat b) q) ! nat i"
      using eq by simp
    then show "p ! nat (a + i) = q ! nat (b + i)"
      using i assms by (simp add: nat_add_distrib)
  qed
next
  assume h: "\<forall>i. 0 \<le> i \<and> i < n \<longrightarrow> p ! nat (a + i) = q ! nat (b + i)"
  show "take (nat n) (drop (nat a) p) = take (nat n) (drop (nat b) q)"
  proof (rule nth_equalityI)
    show "length (take (nat n) (drop (nat a) p)) = length (take (nat n) (drop (nat b) q))"
      using assms by simp
  next
    fix i assume "i < length (take (nat n) (drop (nat a) p))"
    then have i: "i < nat n" by simp
    then have "p ! nat (a + int i) = q ! nat (b + int i)" using h by simp
    then show "take (nat n) (drop (nat a) p) ! i = take (nat n) (drop (nat b) q) ! i"
      using i assms by (simp add: nat_add_distrib)
  qed
qed

section \<open>Reading the header and the directory\<close>

lemma hdr_reads:
  assumes "8 \<le> int (length p)"
  shows "hdr_slotCount p = Some (slotCount p)" "hdr_freeListHead p = Some (freeListHead p)"
    "hdr_freePtr p = Some (freePtr p)"
  using assms
  by (simp_all add: hdr_slotCount_def hdr_freeListHead_def hdr_freePtr_def rd_short_def
      slotCount_def freeListHead_def freePtr_def)

lemma slot_reads:
  assumes "0 \<le> i" "8 + 4 * i + 4 \<le> int (length p)"
  shows "slot_offset p i = Some (slotOff p i)" "slot_length p i = Some (slotLen p i)"
  using assms
  by (simp_all add: slot_offset_def slot_length_def rd_short_def SP_SLOT_def slotOff_def slotLen_def)

lemma scan_loop_none:
  "0 \<le> i \<Longrightarrow> 8 + 4 * sc \<le> int (length p) \<Longrightarrow> (\<forall>k. i \<le> k \<and> k < sc \<longrightarrow> \<not> live p k) \<Longrightarrow>
   scan_loop p sc i = Some None"
proof (induction p sc i rule: scan_loop.induct)
  case (1 p sc i)
  show ?case
  proof (cases "i < sc")
    case True
    have r: "slot_length p i = Some (slotLen p i)" using 1(2,3) True by (intro slot_reads) auto
    have nl: "\<not> 0 < slotLen p i" using 1(4) True by (auto simp: live_def)
    have "scan_loop p sc (i + 1) = Some None"
      using 1(1) [OF True r] nl 1(2,3,4) by auto
    then show ?thesis using True r nl by (subst scan_loop.simps) simp
  next
    case False
    then show ?thesis by (subst scan_loop.simps) simp
  qed
qed

lemma scan_loop_first:
  "0 \<le> i \<Longrightarrow> i \<le> j \<Longrightarrow> j < sc \<Longrightarrow> 8 + 4 * sc \<le> int (length p) \<Longrightarrow> live p j \<Longrightarrow>
   (\<forall>k. i \<le> k \<and> k < j \<longrightarrow> \<not> live p k) \<Longrightarrow> scan_loop p sc i = Some (Some j)"
proof (induction p sc i rule: scan_loop.induct)
  case (1 p sc i)
  have lt: "i < sc" using 1 by simp
  have r: "slot_length p i = Some (slotLen p i)" using 1 lt by (intro slot_reads) auto
  show ?case
  proof (cases "i = j")
    case True
    then show ?thesis using lt r 1(6) by (subst scan_loop.simps) (simp add: live_def)
  next
    case False
    then have nl: "\<not> 0 < slotLen p i" using 1(3,7) by (auto simp: live_def)
    have "scan_loop p sc (i + 1) = Some (Some j)"
      using 1(1) [OF lt r] nl 1(2-) False by auto
    then show ?thesis using lt r nl by (subst scan_loop.simps) simp
  qed
qed

section \<open>The codec keeps the invariants\<close>

subsection \<open>Writes to the header and the directory; deleting a record\<close>

lemma get_put_other':
  "0 \<le> a \<Longrightarrow> 0 \<le> b \<Longrightarrow> a + 2 \<le> b \<or> b + 2 \<le> a \<Longrightarrow>
   get_short (put_short p a v) b = get_short p b"
  by (rule get_put_other) auto

lemma wr_short_Some:
  "0 \<le> a \<Longrightarrow> a + 2 \<le> int (length p) \<Longrightarrow> wr_short p a v = Some (put_short p a v)"
  by (simp add: wr_short_def)

lemma set_slot_Some:
  assumes "0 \<le> i" "8 + 4 * i + 4 \<le> int (length p)"
  shows "set_slot_offset p i v = Some (put_short p (SP_SLOT i) v)"
    "set_slot_length p i v = Some (put_short p (SP_SLOT i + 2) v)"
  using assms by (simp_all add: set_slot_offset_def set_slot_length_def wr_short_def SP_SLOT_def)

lemma set_hdr_Some:
  assumes "8 \<le> int (length p)"
  shows "set_slotCount p v = Some (put_short p 0 v)"
    "set_freeListHead p v = Some (put_short p 2 v)"
    "set_freePtr p v = Some (put_short p 4 v)"
  using assms by (simp_all add: set_slotCount_def set_freeListHead_def set_freePtr_def wr_short_def)

lemma slotCount_put: "2 \<le> a \<Longrightarrow> slotCount (put_short p a v) = slotCount p"
  unfolding slotCount_def by (rule get_put_other') auto
lemma freeListHead_put: "0 \<le> a \<Longrightarrow> a = 0 \<or> 4 \<le> a \<Longrightarrow> freeListHead (put_short p a v) = freeListHead p"
  unfolding freeListHead_def by (rule get_put_other') auto
lemma freePtr_put: "0 \<le> a \<Longrightarrow> a \<le> 2 \<or> 6 \<le> a \<Longrightarrow> freePtr (put_short p a v) = freePtr p"
  unfolding freePtr_def by (rule get_put_other') auto
lemma slotOff_put:
  "0 \<le> a \<Longrightarrow> 0 \<le> i \<Longrightarrow> a + 2 \<le> SP_SLOT i \<or> SP_SLOT i + 2 \<le> a \<Longrightarrow>
   slotOff (put_short p a v) i = slotOff p i"
  unfolding slotOff_def by (rule get_put_other') (auto simp: SP_SLOT_def)
lemma slotLen_put:
  "0 \<le> a \<Longrightarrow> 0 \<le> i \<Longrightarrow> a + 2 \<le> SP_SLOT i + 2 \<or> SP_SLOT i + 4 \<le> a \<Longrightarrow>
   slotLen (put_short p a v) i = slotLen p i"
  unfolding slotLen_def by (rule get_put_other') (auto simp: SP_SLOT_def)

lemma SP_SLOT_sep:
  "i \<noteq> j \<Longrightarrow> SP_SLOT i + 4 \<le> SP_SLOT j \<or> SP_SLOT j + 4 \<le> SP_SLOT i"
  unfolding SP_SLOT_def by arith

lemma SP_SLOT_ge: "0 \<le> i \<Longrightarrow> 8 \<le> SP_SLOT i"
  unfolding SP_SLOT_def by simp

lemma delete_ok:
  assumes d: "dir_ok p" and s: "0 \<le> s" "s < slotCount p" and l: "live p s"
  defines "p' \<equiv> put_short (put_short (put_short p (SP_SLOT s + 2) (- 1)) (SP_SLOT s) (freeListHead p)) 2 s"
  shows "SP_DeleteRecord p s = Some (SP_OK, p')"
    and "length p' = length p"
    and "slotCount p' = slotCount p" and "freePtr p' = freePtr p" and "freeListHead p' = s"
    and "slotLen p' s = - 1" and "slotOff p' s = freeListHead p"
    and "\<And>i. 0 \<le> i \<Longrightarrow> i \<noteq> s \<Longrightarrow> slotLen p' i = slotLen p i \<and> slotOff p' i = slotOff p i"
    and "\<And>b. 8 + 4 * slotCount p \<le> b \<Longrightarrow> p' ! nat b = p ! nat b"
proof -
  have len: "8 \<le> int (length p)" "8 + 4 * s + 4 \<le> int (length p)"
    using d s by (auto simp: dir_ok_def)
  have sr: "- 32768 \<le> s" "s \<le> 32767"
    using s get_short_range [of p 0] by (auto simp: slotCount_def)
  have fr: "to_short (freeListHead p) = freeListHead p"
    using get_short_range [of p 2] by (intro to_short_id) (auto simp: freeListHead_def)
  let ?p1 = "put_short p (SP_SLOT s + 2) (- 1)"
  let ?p2 = "put_short ?p1 (SP_SLOT s) (freeListHead p)"
  have f1: "freeListHead ?p1 = freeListHead p"
    using s SP_SLOT_ge [of s] by (intro freeListHead_put) auto
  show "SP_DeleteRecord p s = Some (SP_OK, p')"
    unfolding SP_DeleteRecord_def p'_def using len s l
    by (simp add: hdr_reads slot_reads set_slot_Some set_hdr_Some live_def f1)
  show "length p' = length p" by (simp add: p'_def)
  show "slotCount p' = slotCount p"
    unfolding p'_def using s SP_SLOT_ge [of s] by (simp add: slotCount_put)
  show "freePtr p' = freePtr p"
    unfolding p'_def using s SP_SLOT_ge [of s] by (simp add: freePtr_put)
  show "freeListHead p' = s"
    unfolding p'_def freeListHead_def using len sr by (simp add: get_put_same to_short_id)
  have "slotLen p' s = slotLen ?p1 s"
    unfolding p'_def using s SP_SLOT_ge [of s] by (simp add: slotLen_put)
  also have "\<dots> = - 1"
    unfolding slotLen_def using len s SP_SLOT_ge [of s]
    by (simp add: get_put_same to_short_id SP_SLOT_def)
  finally show "slotLen p' s = - 1" .
  have "slotOff p' s = slotOff ?p2 s"
    unfolding p'_def using s SP_SLOT_ge [of s] by (simp add: slotOff_put)
  also have "\<dots> = freeListHead p"
    unfolding slotOff_def using len s SP_SLOT_ge [of s]
    by (simp add: get_put_same fr SP_SLOT_def)
  finally show "slotOff p' s = freeListHead p" .
  show "\<And>i. 0 \<le> i \<Longrightarrow> i \<noteq> s \<Longrightarrow> slotLen p' i = slotLen p i \<and> slotOff p' i = slotOff p i"
  proof -
    fix i :: int assume i: "0 \<le> i" "i \<noteq> s"
    from SP_SLOT_sep [OF i(2)] SP_SLOT_ge [of s] SP_SLOT_ge [of i] i s
    show "slotLen p' i = slotLen p i \<and> slotOff p' i = slotOff p i"
      unfolding p'_def by (auto simp: slotLen_put slotOff_put)
  qed
  show "\<And>b. 8 + 4 * slotCount p \<le> b \<Longrightarrow> p' ! nat b = p ! nat b"
  proof -
    fix b assume b: "8 + 4 * slotCount p \<le> b"
    then show "p' ! nat b = p ! nat b"
      unfolding p'_def using s SP_SLOT_ge [of s]
      by (simp add: nth_put_short SP_SLOT_def)
  qed
qed

subsection \<open>The tombstone chain and the invariant\<close>

lemma chain_walk_is_chain:
  "chain_walk p n h = Some xs \<Longrightarrow> is_chain p h xs \<and> length xs \<le> n"
proof (induction n arbitrary: h xs)
  case 0
  then show ?case by (auto split: if_splits)
next
  case (Suc n)
  show ?case
  proof (cases "h = - 1")
    case True
    then show ?thesis using Suc.prems by simp
  next
    case False
    with Suc.prems obtain ys where ok: "0 \<le> h" "h < slotCount p" "\<not> live p h"
      and w: "chain_walk p n (slotOff p h) = Some ys" and xs: "xs = h # ys"
      by (auto split: if_splits)
    from Suc.IH [OF w] show ?thesis using ok xs by simp
  qed
qed

lemma is_chain_walk:
  "is_chain p h xs \<Longrightarrow> length xs \<le> n \<Longrightarrow> chain_walk p n h = Some xs"
proof (induction xs arbitrary: h n)
  case Nil
  then show ?case by (cases n) auto
next
  case (Cons x xs)
  then obtain m where n: "n = Suc m" by (cases n) auto
  from Cons.prems have "chain_walk p m (slotOff p x) = Some xs"
    using n by (intro Cons.IH) auto
  then show ?case using Cons.prems n by auto
qed

lemma is_chain_set:
  "is_chain p h xs \<Longrightarrow> x \<in> set xs \<Longrightarrow> 0 \<le> x \<and> x < slotCount p \<and> \<not> live p x"
  by (induction xs arbitrary: h) auto

lemma distinct_length_bound:
  assumes "distinct xs" "\<forall>x\<in>set xs. 0 \<le> x \<and> x < (n::int)"
  shows "length xs \<le> nat n"
proof -
  have "set xs \<subseteq> {0..<n}" using assms(2) by auto
  then have "card (set xs) \<le> card {0..<n}" by (intro card_mono) auto
  then show ?thesis using assms(1) by (simp add: distinct_card)
qed

lemma chain_ok_iff:
  "(case chain_walk p (nat (slotCount p)) (freeListHead p) of None \<Rightarrow> False | Some xs \<Rightarrow> distinct xs)
   \<longleftrightarrow> (\<exists>xs. distinct xs \<and> is_chain p (freeListHead p) xs)"
proof
  assume "case chain_walk p (nat (slotCount p)) (freeListHead p) of None \<Rightarrow> False | Some xs \<Rightarrow> distinct xs"
  then obtain xs where "chain_walk p (nat (slotCount p)) (freeListHead p) = Some xs" "distinct xs"
    by (auto split: option.splits)
  then show "\<exists>xs. distinct xs \<and> is_chain p (freeListHead p) xs"
    using chain_walk_is_chain by blast
next
  assume "\<exists>xs. distinct xs \<and> is_chain p (freeListHead p) xs"
  then obtain xs where xs: "distinct xs" "is_chain p (freeListHead p) xs" by blast
  have "length xs \<le> nat (slotCount p)"
    using xs is_chain_set [OF xs(2)] by (intro distinct_length_bound) auto
  from is_chain_walk [OF xs(2) this] xs(1)
  show "case chain_walk p (nat (slotCount p)) (freeListHead p) of None \<Rightarrow> False | Some xs \<Rightarrow> distinct xs"
    by simp
qed

lemma is_chain_cong:
  assumes "slotCount q = slotCount p"
    "\<forall>x\<in>set xs. slotOff q x = slotOff p x \<and> (live q x \<longleftrightarrow> live p x)"
  shows "is_chain q h xs \<longleftrightarrow> is_chain p h xs"
  using assms by (induction xs arbitrary: h) auto

lemma sp_inv_iff:
  "sp_inv ps p \<longleftrightarrow>
     8 \<le> ps \<and> ps \<le> 32767 \<and> int (length p) = ps \<and>
     0 \<le> slotCount p \<and> 8 + 4 * slotCount p \<le> freePtr p \<and> freePtr p \<le> ps \<and>
     (\<forall>i. 0 \<le> i \<and> i < slotCount p \<and> live p i \<longrightarrow>
        freePtr p \<le> slotOff p i \<and> slotOff p i + slotLen p i \<le> ps) \<and>
     (\<forall>i j. 0 \<le> i \<and> i < slotCount p \<and> 0 \<le> j \<and> j < slotCount p \<and> i \<noteq> j \<and> live p i \<and> live p j \<longrightarrow>
        slotOff p i + slotLen p i \<le> slotOff p j \<or> slotOff p j + slotLen p j \<le> slotOff p i) \<and>
     (\<exists>xs. distinct xs \<and> is_chain p (freeListHead p) xs)"
  unfolding sp_inv_def chain_ok_iff Ball_def atLeastLessThan_iff by blast

lemma sp_inv_dir_ok: "sp_inv ps p \<Longrightarrow> dir_ok p"
  by (auto simp: sp_inv_iff dir_ok_def)

lemma sp_invD:
  assumes "sp_inv ps p"
  shows "8 \<le> ps" "ps \<le> 32767" "int (length p) = ps" "0 \<le> slotCount p"
    "8 + 4 * slotCount p \<le> freePtr p" "freePtr p \<le> ps"
    "\<And>i. 0 \<le> i \<Longrightarrow> i < slotCount p \<Longrightarrow> live p i \<Longrightarrow>
       freePtr p \<le> slotOff p i \<and> slotOff p i + slotLen p i \<le> ps"
    "\<And>i j. 0 \<le> i \<Longrightarrow> i < slotCount p \<Longrightarrow> 0 \<le> j \<Longrightarrow> j < slotCount p \<Longrightarrow> i \<noteq> j \<Longrightarrow>
       live p i \<Longrightarrow> live p j \<Longrightarrow>
       slotOff p i + slotLen p i \<le> slotOff p j \<or> slotOff p j + slotLen p j \<le> slotOff p i"
    "\<exists>xs. distinct xs \<and> is_chain p (freeListHead p) xs"
  using assms unfolding sp_inv_iff by blast+

lemma sp_invI:
  assumes "8 \<le> ps" "ps \<le> 32767" "int (length p) = ps" "0 \<le> slotCount p"
    "8 + 4 * slotCount p \<le> freePtr p" "freePtr p \<le> ps"
    "\<And>i. 0 \<le> i \<Longrightarrow> i < slotCount p \<Longrightarrow> live p i \<Longrightarrow>
       freePtr p \<le> slotOff p i \<and> slotOff p i + slotLen p i \<le> ps"
    "\<And>i j. 0 \<le> i \<Longrightarrow> i < slotCount p \<Longrightarrow> 0 \<le> j \<Longrightarrow> j < slotCount p \<Longrightarrow> i \<noteq> j \<Longrightarrow>
       live p i \<Longrightarrow> live p j \<Longrightarrow>
       slotOff p i + slotLen p i \<le> slotOff p j \<or> slotOff p j + slotLen p j \<le> slotOff p i"
    "\<exists>xs. distinct xs \<and> is_chain p (freeListHead p) xs"
  shows "sp_inv ps p"
  unfolding sp_inv_iff using assms by blast

subsection \<open>Deletion keeps the invariant\<close>

lemma delete_cases:
  assumes d: "dir_ok p"
  shows "(SP_DeleteRecord p s = Some (SP_ERR_INVALID_SLOT, p) \<and> \<not> (0 \<le> s \<and> s < slotCount p \<and> live p s)) \<or>
         (0 \<le> s \<and> s < slotCount p \<and> live p s \<and>
          SP_DeleteRecord p s = Some (SP_OK,
            put_short (put_short (put_short p (SP_SLOT s + 2) (- 1)) (SP_SLOT s) (freeListHead p)) 2 s))"
proof (cases "0 \<le> s \<and> s < slotCount p \<and> live p s")
  case True
  then show ?thesis using delete_ok(1) [OF d] by simp
next
  case False
  have len: "8 \<le> int (length p)" using d by (auto simp: dir_ok_def)
  show ?thesis
  proof (cases "s < 0 \<or> s \<ge> slotCount p")
    case True
    then show ?thesis using False len by (simp add: SP_DeleteRecord_def hdr_reads)
  next
    case f: False
    then have "8 + 4 * s + 4 \<le> int (length p)" "0 \<le> s" using d by (auto simp: dir_ok_def)
    then show ?thesis using False f len
      by (simp add: SP_DeleteRecord_def hdr_reads slot_reads live_def)
  qed
qed

lemma delete_inv:
  assumes inv: "sp_inv ps p" and del: "SP_DeleteRecord p s = Some (rc, p')"
  shows "sp_inv ps p'"
proof -
  have d: "dir_ok p" using inv by (rule sp_inv_dir_ok)
  from delete_cases [OF d, of s] show ?thesis
  proof
    assume "SP_DeleteRecord p s = Some (SP_ERR_INVALID_SLOT, p) \<and> \<not> (0 \<le> s \<and> s < slotCount p \<and> live p s)"
    then show ?thesis using del inv by simp
  next
    assume a: "0 \<le> s \<and> s < slotCount p \<and> live p s \<and>
          SP_DeleteRecord p s = Some (SP_OK,
            put_short (put_short (put_short p (SP_SLOT s + 2) (- 1)) (SP_SLOT s) (freeListHead p)) 2 s)"
    then have s: "0 \<le> s" "s < slotCount p" "live p s" by auto
    from a del have p': "p' = put_short (put_short (put_short p (SP_SLOT s + 2) (- 1)) (SP_SLOT s) (freeListHead p)) 2 s"
      by simp
    note ok = delete_ok [OF d s, folded p']
    have liv: "live p' i \<longleftrightarrow> live p i \<and> i \<noteq> s" if "0 \<le> i" for i
    proof (cases "i = s")
      case True
      then show ?thesis using ok(6) by (simp add: live_def)
    next
      case False
      then show ?thesis using ok(8) [of i] that by (simp add: live_def)
    qed
    from inv obtain xs where xs: "distinct xs" "is_chain p (freeListHead p) xs"
      by (auto simp: sp_inv_iff)
    have notin: "s \<notin> set xs" using is_chain_set [OF xs(2)] s by auto
    have "is_chain p' (freeListHead p) xs \<longleftrightarrow> is_chain p (freeListHead p) xs"
    proof (rule is_chain_cong)
      show "slotCount p' = slotCount p" by (rule ok(3))
      show "\<forall>x\<in>set xs. slotOff p' x = slotOff p x \<and> (live p' x \<longleftrightarrow> live p x)"
        using is_chain_set [OF xs(2)] notin ok(8) liv by auto
    qed
    then have ch: "is_chain p' (freeListHead p') (s # xs)"
      using xs s ok(3,5,7) liv [of s] by simp
    have dist: "distinct (s # xs)" using xs notin by simp
    note I = sp_invD [OF inv]
    show ?thesis
    proof (rule sp_invI)
      show "\<exists>xs. distinct xs \<and> is_chain p' (freeListHead p') xs" using ch dist by blast
      show "int (length p') = ps" using I(3) ok(2) by simp
      show "8 + 4 * slotCount p' \<le> freePtr p'" using I(5) ok(3,4) by simp
      show "freePtr p' \<le> ps" using I(6) ok(4) by simp
      show "0 \<le> slotCount p'" using I(4) ok(3) by simp
    next
      fix i assume i: "0 \<le> i" "i < slotCount p'" "live p' i"
      then have "live p i" "i \<noteq> s" using liv by auto
      then show "freePtr p' \<le> slotOff p' i \<and> slotOff p' i + slotLen p' i \<le> ps"
        using I(7) [of i] i ok(3,4) ok(8) [of i] by simp
    next
      fix i j assume ij: "0 \<le> i" "i < slotCount p'" "0 \<le> j" "j < slotCount p'" "i \<noteq> j"
        "live p' i" "live p' j"
      then have "live p i" "i \<noteq> s" "live p j" "j \<noteq> s" using liv by auto
      then show "slotOff p' i + slotLen p' i \<le> slotOff p' j \<or> slotOff p' j + slotLen p' j \<le> slotOff p' i"
        using I(8) [of i j] ij ok(3) ok(8) [of i] ok(8) [of j] by simp
    qed (rule I(1) I(2))+
  qed
qed

subsection \<open>The exchange sort of compaction\<close>

lemma sort_inner_spec:
  assumes "\<forall>e\<in>set (pre @ x # dn @ rest). 0 \<le> e \<and> 8 + 4 * e + 4 \<le> int (length p)"
  shows "\<exists>m r. sort_inner p (pre @ x # dn @ rest) (length pre + 1 + length dn + length rest)
            (length pre) (Suc (length pre + length dn)) = Some (pre @ m # dn @ r) \<and>
          mset (m # r) = mset (x # rest) \<and> (\<forall>y\<in>set r. slotOff p y \<le> slotOff p m) \<and>
          slotOff p x \<le> slotOff p m"
  using assms
proof (induction rest arbitrary: x dn)
  case Nil
  show ?case by (subst sort_inner.simps) simp
next
  case (Cons y ys)
  let ?order = "pre @ x # dn @ y # ys"
  let ?act = "length pre + 1 + length dn + length (y # ys)"
  let ?j = "Suc (length pre + length dn)"
  have rx: "slot_offset p x = Some (slotOff p x)" and ry: "slot_offset p y = Some (slotOff p y)"
    using Cons.prems by (auto intro!: slot_reads)
  have ni: "?order ! length pre = x" by simp
  have nj: "?order ! ?j = y"
    by (simp add: nth_append nth_Cons')
  have jlt: "?j < ?act" by simp
  define x' where "x' = (if slotOff p x < slotOff p y then y else x)"
  define a where "a = (if slotOff p x < slotOff p y then x else y)"
  have upd: "(if slotOff p x < slotOff p y then ?order[length pre := y, ?j := x]
             else ?order) = pre @ x' # (dn @ [a]) @ ys"
    unfolding x'_def a_def
    by (simp add: list_update_append list_update_code nth_append)
  have step1: "sort_inner p ?order ?act (length pre) ?j =
        sort_inner p (pre @ x' # (dn @ [a]) @ ys) ?act (length pre) (Suc ?j)"
    apply (rule trans [OF sort_inner.simps])
    apply (simp only: jlt if_True ni nj rx ry Option.bind.simps upd)
    done
  have ar: "?act = length pre + 1 + length (dn @ [a]) + length ys"
    "Suc ?j = Suc (length pre + length (dn @ [a]))" by simp_all
  have step: "sort_inner p ?order ?act (length pre) ?j =
        sort_inner p (pre @ x' # (dn @ [a]) @ ys) (length pre + 1 + length (dn @ [a]) + length ys)
          (length pre) (Suc (length pre + length (dn @ [a])))"
    using step1 unfolding ar .
  have pre': "\<forall>e\<in>set (pre @ x' # (dn @ [a]) @ ys). 0 \<le> e \<and> 8 + 4 * e + 4 \<le> int (length p)"
    using Cons.prems by (auto simp: x'_def a_def)
  from Cons.IH [OF pre'] obtain m r where
    r: "sort_inner p (pre @ x' # (dn @ [a]) @ ys) (length pre + 1 + length (dn @ [a]) + length ys)
          (length pre) (Suc (length pre + length (dn @ [a]))) = Some (pre @ m # (dn @ [a]) @ r)"
    and ms: "mset (m # r) = mset (x' # ys)"
    and le: "\<forall>y\<in>set r. slotOff p y \<le> slotOff p m" "slotOff p x' \<le> slotOff p m"
    by blast
  have "sort_inner p ?order ?act (length pre) ?j = Some (pre @ m # dn @ (a # r))"
    using step r by simp
  moreover have "mset (m # a # r) = mset (x # y # ys)"
    using ms by (auto simp: x'_def a_def)
  moreover have "\<forall>z\<in>set (a # r). slotOff p z \<le> slotOff p m"
    using le by (auto simp: x'_def a_def split: if_splits)
  moreover have "slotOff p x \<le> slotOff p m"
    using le by (auto simp: x'_def split: if_splits)
  ultimately show ?case by blast
qed

lemma sort_outer_spec:
  assumes "\<forall>e\<in>set (pre @ rest). 0 \<le> e \<and> 8 + 4 * e + 4 \<le> int (length p)"
  shows "\<exists>S. sort_outer p (pre @ rest) (length pre + length rest) (length pre) = Some (pre @ S) \<and>
          mset S = mset rest \<and> sorted_wrt (\<lambda>a b. slotOff p b \<le> slotOff p a) S"
  using assms
proof (induction "length rest" arbitrary: pre rest)
  case 0
  then show ?case by (subst sort_outer.simps) simp
next
  case (Suc n)
  then obtain x xs where rest: "rest = x # xs" and n: "n = length xs"
    by (cases rest) auto
  have "\<forall>e\<in>set (pre @ x # [] @ xs). 0 \<le> e \<and> 8 + 4 * e + 4 \<le> int (length p)"
    using Suc.prems rest by simp
  from sort_inner_spec [OF this] obtain m r where
    inner: "sort_inner p (pre @ x # xs) (length pre + 1 + length xs) (length pre) (Suc (length pre))
              = Some (pre @ m # r)"
    and ms: "mset (m # r) = mset (x # xs)"
    and le: "\<forall>y\<in>set r. slotOff p y \<le> slotOff p m"
    by auto
  have "length (m # r) = length (x # xs)" using ms by (rule mset_eq_length)
  then have lr: "length r = length xs" by simp
  have st: "set (m # r) = set (x # xs)" using ms by (rule mset_eq_setD)
  have rd': "\<forall>e\<in>set ((pre @ [m]) @ r). 0 \<le> e \<and> 8 + 4 * e + 4 \<le> int (length p)"
    using Suc.prems rest st by auto
  have nr: "n = length r" using n lr by simp
  from Suc.hyps(1) [OF nr rd'] obtain S where
    outer: "sort_outer p ((pre @ [m]) @ r) (length (pre @ [m]) + length r) (length (pre @ [m]))
              = Some ((pre @ [m]) @ S)"
    and msS: "mset S = mset r"
    and srt: "sorted_wrt (\<lambda>a b. slotOff p b \<le> slotOff p a) S"
    by blast
  have outer': "sort_outer p (pre @ m # r) (length pre + 1 + length xs) (Suc (length pre))
              = Some (pre @ m # S)"
    using outer lr by simp
  have "sort_outer p (pre @ rest) (length pre + length rest) (length pre) = Some (pre @ m # S)"
    unfolding rest
    apply (rule trans [OF sort_outer.simps])
    using inner outer' by simp
  moreover have "mset (m # S) = mset rest" using msS ms rest by simp
  moreover have "sorted_wrt (\<lambda>a b. slotOff p b \<le> slotOff p a) (m # S)"
    using srt le mset_eq_setD [OF msS] by simp
  ultimately show ?case by blast
qed

lemma sorted_perm_unique:
  assumes "mset A = mset B" "sorted_wrt (\<lambda>a b. (k b :: int) < k a) A"
    "sorted_wrt (\<lambda>a b. k b \<le> k a) B"
  shows "B = A"
  using assms
proof (induction A arbitrary: B)
  case Nil
  then show ?case by simp
next
  case (Cons a A)
  then obtain b B' where B: "B = b # B'" by (cases B) auto
  have "a \<in> set B" using mset_eq_setD [OF Cons.prems(1)] by auto
  then have ab: "k a \<le> k b" using Cons.prems(3) B by auto
  have "b \<in> set (a # A)" using mset_eq_setD [OF Cons.prems(1)] B by auto
  then have "b = a" using Cons.prems(2) ab by auto
  then have "mset A = mset B'" using Cons.prems(1) B by simp
  from Cons.IH [OF this] Cons.prems(2,3) B \<open>b = a\<close> show ?case by simp
qed

subsection \<open>Collecting the live slots\<close>

lemma SP_MAX_SLOTS_eq: "8 \<le> ps \<Longrightarrow> ps \<le> 32767 \<Longrightarrow> SP_MAX_SLOTS ps = (ps - 8) div 4"
  by (simp add: SP_MAX_SLOTS_def to_size_t_id)

lemma collect_loop_spec:
  assumes "0 \<le> i" "sc \<le> 32767" "8 + 4 * sc \<le> int (length p)"
    "int (length acc) + (sc - i) \<le> SP_MAX_SLOTS ps"
  shows "collect_loop ps p sc i acc = Some (acc @ filter (live p) [i..sc - 1])"
  using assms
proof (induction ps p sc i acc rule: collect_loop.induct)
  case (1 ps p sc i acc)
  show ?case
  proof (cases "i < sc")
    case False
    then show ?thesis by (subst collect_loop.simps) simp
  next
    case True
    have r: "slot_length p i = Some (slotLen p i)" using 1(3,5) True by (intro slot_reads) auto
    have ts: "to_short i = i" using 1(3,4) True by (intro to_short_id) auto
    have up: "[i..sc - 1] = i # [i + 1..sc - 1]" using True by (simp add: upto_rec1)
    show ?thesis
    proof (cases "0 < slotLen p i")
      case l: True
      have lt: "int (length acc) < SP_MAX_SLOTS ps" using 1(6) True by simp
      have "collect_loop ps p sc (i + 1) (acc @ [to_short i]) =
            Some ((acc @ [to_short i]) @ filter (live p) [i + 1..sc - 1])"
        using 1(1) [OF True r l lt] 1(3-) True by simp
      then show ?thesis
        apply (subst collect_loop.simps)
        using True r l lt ts up by (simp add: live_def)
    next
      case l: False
      have "collect_loop ps p sc (i + 1) acc = Some (acc @ filter (live p) [i + 1..sc - 1])"
        using 1(2) [OF True r l] 1(3-) True by simp
      then show ?thesis
        apply (subst collect_loop.simps)
        using True r l up by (simp add: live_def)
    qed
  qed
qed

lemma live_slots_set: "k \<in> set (live_slots p) \<longleftrightarrow> 0 \<le> k \<and> k < slotCount p \<and> live p k"
  by (auto simp: live_slots_def)

lemma live_slots_distinct: "distinct (live_slots p)"
  by (simp add: live_slots_def)

lemma collect_live_slots:
  assumes "8 \<le> ps" "ps \<le> 32767" "0 \<le> slotCount p" "8 + 4 * slotCount p \<le> ps" "int (length p) = ps"
  shows "collect_loop ps p (slotCount p) 0 [] = Some (live_slots p)"
proof -
  have "slotCount p \<le> (ps - 8) div 4" using assms by simp
  then have "int (length ([]::int list)) + (slotCount p - 0) \<le> SP_MAX_SLOTS ps"
    using assms by (simp add: SP_MAX_SLOTS_eq)
  from collect_loop_spec [OF _ _ _ this, of p] assms show ?thesis
    by (simp add: live_slots_def)
qed

subsection \<open>Moving one record\<close>

lemma move_step:
  assumes len: "int (length q) = ps" and ps: "ps \<le> 32767"
    and k: "0 \<le> k" "k < scn" and lo: "8 + 4 * scn \<le> lo" and f: "f \<le> ps"
    and lk: "0 < slotLen q k" and ok: "lo \<le> slotOff q k" and fk: "slotOff q k + slotLen q k \<le> f"
  shows "\<exists>p2. move_loop q f (k # ks) = move_loop p2 (f - slotLen q k) ks \<and> length p2 = length q \<and>
     (\<forall>a. 0 \<le> a \<and> a < ps \<longrightarrow> p2 ! nat a =
        (if a = SP_SLOT k then word_of_int (f - slotLen q k)
         else if a = SP_SLOT k + 1 then word_of_int ((f - slotLen q k) div 256)
         else if f - slotLen q k \<le> a \<and> a < f then q ! nat (slotOff q k + (a - (f - slotLen q k)))
         else q ! nat a)) \<and>
     (slotOff q k = f - slotLen q k \<longrightarrow> p2 = q)"
proof -
  define n where "n = slotLen q k"
  define off where "off = slotOff q k"
  define f2 where "f2 = f - n"
  have slotk: "SP_SLOT k = 8 + 4 * k" by (simp add: SP_SLOT_def)
  have b: "8 \<le> lo" "lo \<le> off" "off \<le> f2" "f2 < f" "off + n \<le> f" "0 < n" "8 + 4 * k + 4 \<le> lo"
    "f2 + n = f"
    using k lo lk ok fk by (auto simp: n_def off_def f2_def)
  have rdl: "slot_length q k = Some n" and rdo: "slot_offset q k = Some off"
    using k b f len by (auto simp: n_def off_def intro!: slot_reads)
  have ts: "to_short (f - n) = f2" using b f ps by (simp add: f2_def to_short_id)
  have tz: "to_size_t f2 = f2" "to_size_t n = n" using b f ps by (auto intro!: to_size_t_id)
  define bs where "bs = take (nat n) (drop (nat off) q)"
  have lbs: "length bs = nat n" using b f len by (simp add: bs_def)
  define p1 where "p1 = (if off \<noteq> f2 then take (nat f2) q @ bs @ drop (nat f2 + length bs) q else q)"
  have mm: "(if off \<noteq> f2 then memmove q f2 off n else Some q) = Some p1"
    using b f len lbs by (simp add: memmove_def rd_bytes_def wr_bytes_def p1_def bs_def)
  have lp1: "length p1 = length q" using b f len lbs by (simp add: p1_def)
  have p1b: "p1 ! nat a = (if f2 \<le> a \<and> a < f then q ! nat (off + (a - f2)) else q ! nat a)"
    if a: "0 \<le> a" "a < ps" for a
  proof (cases "off = f2")
    case True
    then show ?thesis by (simp add: p1_def)
  next
    case False
    have "(take (nat f2) q @ bs @ drop (nat f2 + length bs) q) ! nat a =
        (if f2 \<le> a \<and> a < f2 + int (length bs) then bs ! nat (a - f2) else q ! nat a)"
      using b f len a lbs by (intro nth_wr) auto
    then have "p1 ! nat a = (if f2 \<le> a \<and> a < f then bs ! nat (a - f2) else q ! nat a)"
      using False b lbs by (simp add: p1_def)
    also have "\<dots> = (if f2 \<le> a \<and> a < f then q ! nat (off + (a - f2)) else q ! nat a)"
      using b f len a by (auto simp: bs_def nat_add_distrib)
    finally show ?thesis .
  qed
  define p2 where "p2 = put_short p1 (SP_SLOT k) f2"
  have so: "set_slot_offset p1 k f2 = Some p2"
    unfolding p2_def using k b f len lp1 by (intro set_slot_Some) auto
  have f28: "\<not> f2 < 8" using b by simp
  have "move_loop q f (k # ks) =
      (if off \<noteq> f2 then memmove q f2 off n else Some q) \<bind>
        (\<lambda>p1. set_slot_offset p1 k f2 \<bind> (\<lambda>p2. move_loop p2 f2 ks))"
    by (simp only: move_loop.simps rdl rdo Option.bind.simps Let_def ts tz f28 if_False)
  then have "move_loop q f (k # ks) = move_loop p2 f2 ks"
    by (simp only: mm so Option.bind.simps)
  moreover have "length p2 = length q" using lp1 by (simp add: p2_def)
  moreover have "p2 ! nat a =
        (if a = SP_SLOT k then word_of_int f2
         else if a = SP_SLOT k + 1 then word_of_int (f2 div 256)
         else if f2 \<le> a \<and> a < f then q ! nat (off + (a - f2))
         else q ! nat a)" if a: "0 \<le> a" "a < ps" for a
  proof -
    consider "a = SP_SLOT k" | "a = SP_SLOT k + 1" | "a \<noteq> SP_SLOT k" "a \<noteq> SP_SLOT k + 1" by blast
    then show ?thesis
    proof cases
      case 1
      then show ?thesis unfolding p2_def put_short_def using k lp1 len b f
        by (simp add: slotk nat_add_distrib)
    next
      case 2
      then show ?thesis unfolding p2_def put_short_def using k lp1 len b f
        by (simp add: slotk nat_add_distrib)
    next
      case 3
      then have "p2 ! nat a = p1 ! nat a"
        unfolding p2_def using a k by (intro nth_put_short) (auto simp: slotk)
      then show ?thesis using 3 p1b [OF a] by simp
    qed
  qed
  moreover have "off = f2 \<longrightarrow> p2 = q"
  proof
    assume e: "off = f2"
    then have "p1 = q" by (simp add: p1_def)
    then have "p2 = put_short q (SP_SLOT k) (slotOff q k)" using e by (simp add: p2_def off_def)
    also have "\<dots> = q" unfolding slotOff_def using k b f len by (intro put_get_id) (auto simp: slotk)
    finally show "p2 = q" .
  qed
  ultimately show ?thesis unfolding f2_def n_def off_def by blast
qed

subsection \<open>The move loop\<close>

lemma slot_bytes_eqI:
  assumes "slotLen q' k = slotLen q k" "0 \<le> slotLen q k" "0 \<le> slotOff q k" "0 \<le> slotOff q' k"
    "slotOff q k + slotLen q k \<le> int (length q)" "slotOff q' k + slotLen q k \<le> int (length q')"
    "\<forall>i. 0 \<le> i \<and> i < slotLen q k \<longrightarrow> q' ! nat (slotOff q' k + i) = q ! nat (slotOff q k + i)"
  shows "slot_bytes q' k = slot_bytes q k"
  unfolding slot_bytes_def assms(1)
  using assms(2-) by (subst take_drop_eq_iff) auto

lemma get_short_of_bytes:
  assumes "- 32768 \<le> v" "v \<le> 32767" "q ! nat a = word_of_int v" "q ! nat (a + 1) = word_of_int (v div 256)"
  shows "get_short q a = v"
  unfolding get_short_def assms(3,4) short_bytes to_short_mod using assms(1,2) by (rule to_short_id)

lemma slot_fields_cong:
  assumes "q' ! nat (SP_SLOT j) = q ! nat (SP_SLOT j)" "q' ! nat (SP_SLOT j + 1) = q ! nat (SP_SLOT j + 1)"
  shows "slotOff q' j = slotOff q j"
  unfolding slotOff_def using assms by (rule get_short_cong)

lemma slot_len_cong:
  assumes "q' ! nat (SP_SLOT j + 2) = q ! nat (SP_SLOT j + 2)" "q' ! nat (SP_SLOT j + 3) = q ! nat (SP_SLOT j + 3)"
  shows "slotLen q' j = slotLen q j"
  unfolding slotLen_def using assms by (intro get_short_cong) (simp_all add: add.assoc)

lemma move_loop_spec:
  assumes "int (length q) = ps" "ps \<le> 32767" "0 \<le> scn" "8 + 4 * scn \<le> lo" "f \<le> ps"
    and "\<forall>k\<in>set ks. 0 \<le> k \<and> k < scn \<and> 0 < slotLen q k \<and> lo \<le> slotOff q k \<and>
           slotOff q k + slotLen q k \<le> f"
    and "sorted_wrt (\<lambda>a b. slotOff q b + slotLen q b \<le> slotOff q a) ks"
  shows "\<exists>q'. move_loop q f ks = Some (q', f - sum_list (map (slotLen q) ks)) \<and>
      length q' = length q \<and>
      (\<forall>a. 0 \<le> a \<and> a < lo \<and> (\<forall>k\<in>set ks. a \<noteq> SP_SLOT k \<and> a \<noteq> SP_SLOT k + 1) \<longrightarrow>
           q' ! nat a = q ! nat a) \<and>
      (\<forall>a. f \<le> a \<and> a < ps \<longrightarrow> q' ! nat a = q ! nat a) \<and>
      (\<forall>k\<in>set ks. slotLen q' k = slotLen q k \<and> slot_bytes q' k = slot_bytes q k) \<and>
      packed q' f ks \<and> (packed q f ks \<longrightarrow> q' = q) \<and>
      (ks \<noteq> [] \<longrightarrow> lo \<le> f - sum_list (map (slotLen q) ks))"
  using assms
proof (induction ks arbitrary: q f)
  case Nil
  then show ?case by simp
next
  case (Cons k ks)
  note len = Cons.prems(1) and ps = Cons.prems(2) and scn = Cons.prems(3) and lo = Cons.prems(4)
    and f = Cons.prems(5)
  define n where "n = slotLen q k"
  define off where "off = slotOff q k"
  define f2 where "f2 = f - n"
  have k: "0 \<le> k" "k < scn" "0 < n" "lo \<le> off" "off + n \<le> f"
    using Cons.prems(6) by (auto simp: n_def off_def)
  have b: "8 \<le> lo" "off \<le> f2" "f2 < f" "f2 + n = f" "8 + 4 * k + 4 \<le> lo" "lo \<le> f2" "0 \<le> f2"
    using k lo scn by (auto simp: f2_def)
  have slotk: "SP_SLOT k = 8 + 4 * k" by (simp add: SP_SLOT_def)
  from move_step [OF len ps k(1,2) lo f, of ks] k
  obtain p2 where st: "move_loop q f (k # ks) = move_loop p2 f2 ks"
    and lp2: "length p2 = length q"
    and p2b: "\<And>a. 0 \<le> a \<Longrightarrow> a < ps \<Longrightarrow> p2 ! nat a =
        (if a = SP_SLOT k then word_of_int f2
         else if a = SP_SLOT k + 1 then word_of_int (f2 div 256)
         else if f2 \<le> a \<and> a < f then q ! nat (off + (a - f2))
         else q ! nat a)"
    and noop: "off = f2 \<longrightarrow> p2 = q"
    unfolding n_def [symmetric] off_def [symmetric] f2_def [symmetric] by blast
  have low: "p2 ! nat a = q ! nat a" if "0 \<le> a" "a < f2" "a \<noteq> SP_SLOT k" "a \<noteq> SP_SLOT k + 1" for a
    using p2b [of a] that b f by simp
  have high: "p2 ! nat a = q ! nat a" if "f \<le> a" "a < ps" for a
    using p2b [of a] that b lo k by (simp add: slotk)
  have moved: "p2 ! nat (f2 + i) = q ! nat (off + i)" if "0 \<le> i" "i < n" for i
    using p2b [of "f2 + i"] that b f k by (simp add: slotk)
  have lenk: "slotLen p2 k = n"
    unfolding n_def using k b by (intro slot_len_cong low) (auto simp: slotk)
  have offk: "slotOff p2 k = f2"
    unfolding slotOff_def
  proof (rule get_short_of_bytes)
    show "- 32768 \<le> f2" "f2 \<le> 32767" using b f ps by auto
    show "p2 ! nat (SP_SLOT k) = word_of_int f2" using p2b [of "SP_SLOT k"] k b f by (simp add: slotk)
    show "p2 ! nat (SP_SLOT k + 1) = word_of_int (f2 div 256)"
      using p2b [of "SP_SLOT k + 1"] k b f by (simp add: slotk)
  qed
  have others: "j \<noteq> k \<and> 0 \<le> j \<and> j < scn \<and> slotLen p2 j = slotLen q j \<and> slotOff p2 j = slotOff q j \<and>
      0 < slotLen q j \<and> lo \<le> slotOff q j \<and> slotOff q j + slotLen q j \<le> off"
    if j: "j \<in> set ks" for j
  proof -
    have jb: "0 \<le> j" "j < scn" "0 < slotLen q j" "lo \<le> slotOff q j"
      using Cons.prems(6) j by auto
    have jo: "slotOff q j + slotLen q j \<le> off" using Cons.prems(7) j by (simp add: off_def)
    have ne: "j \<noteq> k" using jo jb k by (auto simp: off_def n_def)
    have sj: "SP_SLOT j = 8 + 4 * j" by (simp add: SP_SLOT_def)
    have "slotLen p2 j = slotLen q j"
      using jb ne lo b by (intro slot_len_cong low) (auto simp: slotk sj)
    moreover have "slotOff p2 j = slotOff q j"
      using jb ne lo b by (intro slot_fields_cong low) (auto simp: slotk sj)
    ultimately show ?thesis using jb jo ne by simp
  qed
  have pre6: "\<forall>j\<in>set ks. 0 \<le> j \<and> j < scn \<and> 0 < slotLen p2 j \<and> lo \<le> slotOff p2 j \<and>
           slotOff p2 j + slotLen p2 j \<le> f2"
    using others b by fastforce
  have pre7: "sorted_wrt (\<lambda>a b. slotOff p2 b + slotLen p2 b \<le> slotOff p2 a) ks"
  proof -
    have "sorted_wrt (\<lambda>a b. slotOff q b + slotLen q b \<le> slotOff q a) ks"
      using Cons.prems(7) by simp
    then show ?thesis
      by (rule sorted_wrt_mono_rel [rotated]) (use others in auto)
  qed
  have lp2': "int (length p2) = ps" using lp2 len by simp
  have f2ps: "f2 \<le> ps" using b f by simp
  from Cons.IH [OF lp2' ps scn lo f2ps pre6 pre7]
  obtain q' where r: "move_loop p2 f2 ks = Some (q', f2 - sum_list (map (slotLen p2) ks))"
    and lq': "length q' = length p2"
    and fr1: "\<And>a. 0 \<le> a \<Longrightarrow> a < lo \<Longrightarrow> (\<forall>k\<in>set ks. a \<noteq> SP_SLOT k \<and> a \<noteq> SP_SLOT k + 1) \<Longrightarrow>
           q' ! nat a = p2 ! nat a"
    and fr2: "\<And>a. f2 \<le> a \<Longrightarrow> a < ps \<Longrightarrow> q' ! nat a = p2 ! nat a"
    and sb: "\<And>j. j \<in> set ks \<Longrightarrow> slotLen q' j = slotLen p2 j \<and> slot_bytes q' j = slot_bytes p2 j"
    and pk: "packed q' f2 ks" and idem: "packed p2 f2 ks \<longrightarrow> q' = p2"
    and lob: "ks \<noteq> [] \<longrightarrow> lo \<le> f2 - sum_list (map (slotLen p2) ks)"
    by blast
  have sums: "sum_list (map (slotLen p2) ks) = sum_list (map (slotLen q) ks)"
    using others by (intro arg_cong [where f = sum_list] map_cong) auto
  have notk: "\<forall>j\<in>set ks. SP_SLOT k \<noteq> SP_SLOT j \<and> SP_SLOT k \<noteq> SP_SLOT j + 1 \<and>
      SP_SLOT k + 1 \<noteq> SP_SLOT j \<and> SP_SLOT k + 1 \<noteq> SP_SLOT j + 1 \<and>
      SP_SLOT k + 2 \<noteq> SP_SLOT j \<and> SP_SLOT k + 2 \<noteq> SP_SLOT j + 1 \<and>
      SP_SLOT k + 3 \<noteq> SP_SLOT j \<and> SP_SLOT k + 3 \<noteq> SP_SLOT j + 1"
  proof
    fix j assume "j \<in> set ks"
    then have "j \<noteq> k" using others by blast
    from SP_SLOT_sep [OF this] show "SP_SLOT k \<noteq> SP_SLOT j \<and> SP_SLOT k \<noteq> SP_SLOT j + 1 \<and>
      SP_SLOT k + 1 \<noteq> SP_SLOT j \<and> SP_SLOT k + 1 \<noteq> SP_SLOT j + 1 \<and>
      SP_SLOT k + 2 \<noteq> SP_SLOT j \<and> SP_SLOT k + 2 \<noteq> SP_SLOT j + 1 \<and>
      SP_SLOT k + 3 \<noteq> SP_SLOT j \<and> SP_SLOT k + 3 \<noteq> SP_SLOT j + 1" by auto
  qed
  have lenk': "slotLen q' k = n"
  proof -
    have "slotLen q' k = slotLen p2 k"
      using k b notk by (intro slot_len_cong fr1) (auto simp: slotk)
    then show ?thesis using lenk by simp
  qed
  have offk': "slotOff q' k = f2"
  proof -
    have "slotOff q' k = slotOff p2 k"
      using k b notk by (intro slot_fields_cong fr1) (auto simp: slotk)
    then show ?thesis using offk by simp
  qed
  have bytesk: "slot_bytes q' k = slot_bytes q k"
  proof (rule slot_bytes_eqI)
    show "slotLen q' k = slotLen q k" using lenk' by (simp add: n_def)
    show "0 \<le> slotLen q k" using k by (simp add: n_def)
    show "0 \<le> slotOff q k" using k b by (simp add: off_def)
    show "0 \<le> slotOff q' k" using offk' b by simp
    show "slotOff q k + slotLen q k \<le> int (length q)" using k f len by (simp add: off_def n_def)
    show "slotOff q' k + slotLen q k \<le> int (length q')"
      using offk' b f len lq' lp2 by (simp add: n_def)
    show "\<forall>i. 0 \<le> i \<and> i < slotLen q k \<longrightarrow> q' ! nat (slotOff q' k + i) = q ! nat (slotOff q k + i)"
    proof (intro allI impI)
      fix i assume i: "0 \<le> i \<and> i < slotLen q k"
      then have "q' ! nat (f2 + i) = p2 ! nat (f2 + i)" using b f by (intro fr2) (auto simp: n_def)
      also have "\<dots> = q ! nat (off + i)" using i by (intro moved) (auto simp: n_def)
      finally show "q' ! nat (slotOff q' k + i) = q ! nat (slotOff q k + i)"
        using offk' by (simp add: off_def)
    qed
  qed
  have bytesj: "slotLen q' j = slotLen q j \<and> slot_bytes q' j = slot_bytes q j" if j: "j \<in> set ks" for j
  proof -
    note o = others [OF j]
    have "slot_bytes p2 j = slot_bytes q j"
    proof (rule slot_bytes_eqI)
      show "\<forall>i. 0 \<le> i \<and> i < slotLen q j \<longrightarrow> p2 ! nat (slotOff p2 j + i) = q ! nat (slotOff q j + i)"
      proof (intro allI impI)
        fix i assume i: "0 \<le> i \<and> i < slotLen q j"
        have "p2 ! nat (slotOff q j + i) = q ! nat (slotOff q j + i)"
          using o i b k by (intro low) (auto simp: slotk)
        then show "p2 ! nat (slotOff p2 j + i) = q ! nat (slotOff q j + i)" using o by simp
      qed
    qed (use o b k f len lp2 in auto)
    then show ?thesis using sb [OF j] o by simp
  qed
  have res: "move_loop q f (k # ks) = Some (q', f - sum_list (map (slotLen q) (k # ks)))"
    using st r sums by (simp add: f2_def n_def algebra_simps)
  have c3: "q' ! nat a = q ! nat a"
    if "0 \<le> a \<and> a < lo \<and> (\<forall>j\<in>set (k # ks). a \<noteq> SP_SLOT j \<and> a \<noteq> SP_SLOT j + 1)" for a
  proof -
    have "q' ! nat a = p2 ! nat a" using that by (intro fr1) auto
    also have "\<dots> = q ! nat a" using that b by (intro low) auto
    finally show ?thesis .
  qed
  have c4: "q' ! nat a = q ! nat a" if "f \<le> a \<and> a < ps" for a
  proof -
    have "q' ! nat a = p2 ! nat a" using that b by (intro fr2) auto
    also have "\<dots> = q ! nat a" using that by (intro high) auto
    finally show ?thesis .
  qed
  have c6: "packed q' f (k # ks)" using pk offk' lenk' by (simp add: f2_def)
  have c7: "packed q f (k # ks) \<longrightarrow> q' = q"
  proof
    assume pq: "packed q f (k # ks)"
    then have "off = f2" by (simp add: off_def f2_def n_def)
    then have e: "p2 = q" using noop by simp
    then have "packed p2 f2 ks" using pq by (simp add: f2_def n_def)
    then show "q' = q" using idem e by simp
  qed
  have c8: "lo \<le> f - sum_list (map (slotLen q) (k # ks))"
  proof (cases "ks = []")
    case True
    then show ?thesis using b by (simp add: f2_def n_def)
  next
    case False
    then show ?thesis using lob sums by (simp add: f2_def n_def algebra_simps)
  qed
  show ?case
    using res lq' lp2 c3 c4 bytesk bytesj lenk' c6 c7 c8
    by (auto simp: n_def)
qed

subsection \<open>Packed records\<close>

lemma sorted_wrt_strengthen:
  assumes "sorted_wrt P xs" "distinct xs"
    "\<And>a b. a \<in> set xs \<Longrightarrow> b \<in> set xs \<Longrightarrow> a \<noteq> b \<Longrightarrow> P a b \<Longrightarrow> Q a b"
  shows "sorted_wrt Q xs"
  using assms by (induction xs) auto

lemma sorted_wrt_total:
  assumes "sorted_wrt R xs" "a \<in> set xs" "b \<in> set xs" "a \<noteq> b"
  shows "R a b \<or> R b a"
  using assms by (induction xs) auto

lemma packed_bounds:
  assumes "packed q f ks" "\<forall>k\<in>set ks. 0 < slotLen q k"
  shows "(\<forall>k\<in>set ks. f - sum_list (map (slotLen q) ks) \<le> slotOff q k \<and> slotOff q k + slotLen q k \<le> f) \<and>
         sorted_wrt (\<lambda>a b. slotOff q b + slotLen q b \<le> slotOff q a) ks \<and>
         0 \<le> sum_list (map (slotLen q) ks)"
  using assms
proof (induction ks arbitrary: f)
  case Nil
  then show ?case by simp
next
  case (Cons k ks)
  have pk: "packed q (f - slotLen q k) ks" and ok: "slotOff q k = f - slotLen q k"
    using Cons.prems(1) by auto
  have pos: "\<forall>k\<in>set ks. 0 < slotLen q k" and lk: "0 < slotLen q k" using Cons.prems(2) by auto
  from Cons.IH [OF pk pos] ok lk show ?case by fastforce
qed

lemma packed_cong:
  assumes "\<forall>k\<in>set ks. slotOff q' k = slotOff q k \<and> slotLen q' k = slotLen q k"
  shows "packed q' f ks \<longleftrightarrow> packed q f ks"
  using assms by (induction ks arbitrary: f) auto

lemma sum_list_map_mset_eq:
  assumes "mset xs = mset ys"
  shows "sum_list (map (g :: int \<Rightarrow> int) xs) = sum_list (map g ys)"
proof -
  have "mset (map g xs) = mset (map g ys)" using assms by simp
  then have "sum_mset (mset (map g xs)) = sum_mset (mset (map g ys))" by simp
  then show ?thesis by (simp only: sum_mset_sum_list)
qed

lemma SP_SLOT_len_ne:
  "SP_SLOT i + 2 \<noteq> SP_SLOT k \<and> SP_SLOT i + 2 \<noteq> SP_SLOT k + 1 \<and>
   SP_SLOT i + 3 \<noteq> SP_SLOT k \<and> SP_SLOT i + 3 \<noteq> SP_SLOT k + 1"
proof (cases "i = k")
  case True
  then show ?thesis by simp
next
  case False
  from SP_SLOT_sep [OF this] show ?thesis by auto
qed

lemma SP_SLOT_off_ne:
  "i \<noteq> k \<Longrightarrow> SP_SLOT i \<noteq> SP_SLOT k \<and> SP_SLOT i \<noteq> SP_SLOT k + 1 \<and>
   SP_SLOT i + 1 \<noteq> SP_SLOT k \<and> SP_SLOT i + 1 \<noteq> SP_SLOT k + 1"
  using SP_SLOT_sep [of i k] by auto

lemma live_slots_cong:
  assumes "slotCount q = slotCount p" "\<forall>i. 0 \<le> i \<and> i < slotCount p \<longrightarrow> slotLen q i = slotLen p i"
  shows "live_slots q = live_slots p"
  unfolding live_slots_def assms(1) using assms(2) by (intro filter_cong) (auto simp: live_def)

subsection \<open>Compaction\<close>

lemma compact_unfold:
  assumes "8 \<le> ps" "ps \<le> 32767" "int (length p) = ps" "0 \<le> slotCount p" "8 + 4 * slotCount p \<le> ps"
  shows "\<exists>S. mset S = mset (live_slots p) \<and> sorted_wrt (\<lambda>a b. slotOff p b \<le> slotOff p a) S \<and>
     SP_CompactPage ps p = (move_loop p ps S \<bind> (\<lambda>(p1, fp). set_freePtr p1 fp))"
proof -
  have len8: "8 \<le> int (length p)" using assms by simp
  have col: "collect_loop ps p (slotCount p) 0 [] = Some (live_slots p)"
    using assms by (intro collect_live_slots) auto
  have rd: "\<forall>e\<in>set ([] @ live_slots p). 0 \<le> e \<and> 8 + 4 * e + 4 \<le> int (length p)"
    using assms by (auto simp: live_slots_set)
  from sort_outer_spec [OF rd] obtain S where
    so: "sort_outer p (live_slots p) (length (live_slots p)) 0 = Some S"
    and ms: "mset S = mset (live_slots p)"
    and srt: "sorted_wrt (\<lambda>a b. slotOff p b \<le> slotOff p a) S"
    by auto
  have ts: "to_short ps = ps" using assms by (intro to_short_id) auto
  have "SP_CompactPage ps p = (move_loop p ps S \<bind> (\<lambda>(p1, fp). set_freePtr p1 fp))"
    unfolding SP_CompactPage_def by (simp only: hdr_reads [OF len8] col so ts Option.bind.simps)
  then show ?thesis using ms srt by blast
qed

lemma compact_spec:
  assumes inv: "sp_inv ps p"
  shows "\<exists>p'. SP_CompactPage ps p = Some p' \<and> sp_inv ps p' \<and> slotCount p' = slotCount p \<and>
     freeListHead p' = freeListHead p \<and>
     (\<forall>i. 0 \<le> i \<and> i < slotCount p \<longrightarrow> slotLen p' i = slotLen p i) \<and>
     (\<forall>i. 0 \<le> i \<and> i < slotCount p \<and> \<not> live p i \<longrightarrow> slotOff p' i = slotOff p i) \<and>
     (\<forall>i. 0 \<le> i \<and> i < slotCount p \<and> live p i \<longrightarrow> slot_bytes p' i = slot_bytes p i) \<and>
     freePtr p' = ps - live_bytes p \<and> freePtr p \<le> freePtr p' \<and>
     SP_CompactPage ps p' = Some p'"
proof -
  note I = sp_invD [OF inv]
  define sc where "sc = slotCount p"
  define lo where "lo = freePtr p"
  have dirps: "8 + 4 * sc \<le> ps" using I by (simp add: sc_def)
  from compact_unfold [OF I(1,2,3,4)] dirps obtain S where
    ms: "mset S = mset (live_slots p)"
    and srt0: "sorted_wrt (\<lambda>a b. slotOff p b \<le> slotOff p a) S"
    and cp: "SP_CompactPage ps p = (move_loop p ps S \<bind> (\<lambda>(p1, fp). set_freePtr p1 fp))"
    by (auto simp: sc_def)
  have setS: "set S = set (live_slots p)" using ms by (rule mset_eq_setD)
  have inS: "k \<in> set S \<longleftrightarrow> 0 \<le> k \<and> k < sc \<and> live p k" for k
    by (simp add: setS live_slots_set sc_def)
  have dS: "distinct S" using ms live_slots_distinct [of p] by (metis distinct_count_atmost_1 mset_eq_setD)
  have pre6: "\<forall>k\<in>set S. 0 \<le> k \<and> k < sc \<and> 0 < slotLen p k \<and> lo \<le> slotOff p k \<and>
           slotOff p k + slotLen p k \<le> ps"
    using I(7) by (auto simp: inS sc_def lo_def live_def)
  have pre7: "sorted_wrt (\<lambda>a b. slotOff p b + slotLen p b \<le> slotOff p a) S"
  proof (rule sorted_wrt_strengthen [OF srt0 dS])
    fix a b assume ab: "a \<in> set S" "b \<in> set S" "a \<noteq> b" "slotOff p b \<le> slotOff p a"
    then have "slotOff p a + slotLen p a \<le> slotOff p b \<or> slotOff p b + slotLen p b \<le> slotOff p a"
      using I(8) [of a b] by (auto simp: inS sc_def)
    moreover have "0 < slotLen p a" using ab pre6 by auto
    ultimately show "slotOff p b + slotLen p b \<le> slotOff p a" using ab by auto
  qed
  define f' where "f' = ps - sum_list (map (slotLen p) S)"
  have lolo: "8 + 4 * sc \<le> lo" using I by (simp add: sc_def lo_def)
  from move_loop_spec [OF I(3) I(2) _ lolo _ pre6 pre7] I(4)
  obtain q' where ml: "move_loop p ps S = Some (q', f')"
    and lq': "length q' = length p"
    and fr1: "\<And>a. 0 \<le> a \<Longrightarrow> a < lo \<Longrightarrow> (\<forall>k\<in>set S. a \<noteq> SP_SLOT k \<and> a \<noteq> SP_SLOT k + 1) \<Longrightarrow>
           q' ! nat a = p ! nat a"
    and sb: "\<And>k. k \<in> set S \<Longrightarrow> slotLen q' k = slotLen p k \<and> slot_bytes q' k = slot_bytes p k"
    and pk: "packed q' ps S"
    and lob: "S \<noteq> [] \<longrightarrow> lo \<le> f'"
    unfolding f'_def sc_def by blast
  have f'eq: "f' = ps - live_bytes p"
    unfolding f'_def live_bytes_def using sum_list_map_mset_eq [OF ms] by simp
  have posq': "\<forall>k\<in>set S. 0 < slotLen q' k" using sb pre6 by auto
  have sumq': "sum_list (map (slotLen q') S) = sum_list (map (slotLen p) S)"
    using sb by (intro arg_cong [where f = sum_list] map_cong) auto
  from packed_bounds [OF pk posq']
  have bnd: "\<And>k. k \<in> set S \<Longrightarrow> f' \<le> slotOff q' k \<and> slotOff q' k + slotLen q' k \<le> ps"
    and srtq': "sorted_wrt (\<lambda>a b. slotOff q' b + slotLen q' b \<le> slotOff q' a) S"
    and sum0: "0 \<le> sum_list (map (slotLen q') S)"
    unfolding sumq' f'_def [symmetric] by auto
  have f'b: "lo \<le> f'" "f' \<le> ps"
  proof -
    show "f' \<le> ps" using sum0 sumq' by (simp add: f'_def)
    show "lo \<le> f'"
    proof (cases "S = []")
      case True
      then show ?thesis using I(6) by (simp add: f'_def lo_def)
    next
      case False
      then show ?thesis using lob by simp
    qed
  qed
  define p' where "p' = put_short q' 4 f'"
  have lenq'8: "8 \<le> int (length q')" using lq' I by simp
  have sf: "set_freePtr q' f' = Some p'" using lenq'8 by (simp add: set_hdr_Some p'_def)
  have run: "SP_CompactPage ps p = Some p'" using cp ml sf by simp
  have lp': "length p' = length p" using lq' by (simp add: p'_def)
  have p'b: "p' ! nat a = q' ! nat a" if "0 \<le> a" "a \<noteq> 4" "a \<noteq> 5" for a
    unfolding p'_def using that by (intro nth_put_short) auto
  have hdr: "p' ! nat a = p ! nat a" if "0 \<le> a" "a < 8" "a \<noteq> 4" "a \<noteq> 5" for a
  proof -
    have "q' ! nat a = p ! nat a"
      using that lolo I(4) by (intro fr1) (auto simp: SP_SLOT_def inS sc_def)
    then show ?thesis using p'b [of a] that by simp
  qed
  have scp': "slotCount p' = slotCount p"
    unfolding slotCount_def by (intro get_short_cong) (simp_all add: hdr [of 0, simplified] hdr [of 1, simplified])
  have flp': "freeListHead p' = freeListHead p"
    unfolding freeListHead_def
    by (intro get_short_cong) (simp_all add: hdr [of 2, simplified] hdr [of 3, simplified])
  have fpp': "freePtr p' = f'"
    unfolding freePtr_def p'_def using lenq'8 f'b lolo I(4,2)
    by (simp add: get_put_same to_short_id sc_def)
  have dirb: "p' ! nat a = p ! nat a"
    if "8 \<le> a" "a < 8 + 4 * sc" "\<forall>k\<in>set S. a \<noteq> SP_SLOT k \<and> a \<noteq> SP_SLOT k + 1" for a
  proof -
    have "q' ! nat a = p ! nat a" using that lolo by (intro fr1) auto
    then show ?thesis using p'b [of a] that by simp
  qed
  have lenp': "slotLen p' i = slotLen p i" if "0 \<le> i" "i < sc" for i
    using that SP_SLOT_len_ne [of i] by (intro slot_len_cong dirb) (auto simp: SP_SLOT_def)
  have livep': "live p' i \<longleftrightarrow> live p i" if "0 \<le> i" "i < sc" for i
    using lenp' [OF that] by (simp add: live_def)
  have offdead: "slotOff p' i = slotOff p i" if "0 \<le> i" "i < sc" "\<not> live p i" for i
  proof -
    have "\<forall>k\<in>set S. i \<noteq> k" using that by (auto simp: inS)
    then have "\<forall>k\<in>set S. SP_SLOT i \<noteq> SP_SLOT k \<and> SP_SLOT i \<noteq> SP_SLOT k + 1 \<and>
        SP_SLOT i + 1 \<noteq> SP_SLOT k \<and> SP_SLOT i + 1 \<noteq> SP_SLOT k + 1"
      using SP_SLOT_off_ne by blast
    then show ?thesis using that by (intro slot_fields_cong dirb) (auto simp: SP_SLOT_def)
  qed
  have offq': "slotOff p' k = slotOff q' k" if "0 \<le> k" for k
    using that by (intro slot_fields_cong p'b) (auto simp: SP_SLOT_def)
  have lenq': "slotLen p' k = slotLen q' k" if "0 \<le> k" for k
    using that by (intro slot_len_cong p'b) (auto simp: SP_SLOT_def)
  have bytes: "slot_bytes p' k = slot_bytes p k" if k: "k \<in> set S" for k
  proof -
    have k0: "0 \<le> k" using k by (simp add: inS)
    have "slot_bytes p' k = slot_bytes q' k"
    proof (rule slot_bytes_eqI)
      show "\<forall>i. 0 \<le> i \<and> i < slotLen q' k \<longrightarrow> p' ! nat (slotOff p' k + i) = q' ! nat (slotOff q' k + i)"
        using bnd [OF k] f'b lolo I(4) offq' [OF k0] by (auto intro!: p'b simp: sc_def)
    qed (use bnd [OF k] f'b lolo I(3,4) offq' [OF k0] lenq' [OF k0] posq' k lq' lp' in \<open>auto simp: sc_def\<close>)
    then show ?thesis using sb [OF k] by simp
  qed
  have fieldsS: "\<forall>k\<in>set S. slotOff p' k = slotOff q' k \<and> slotLen p' k = slotLen q' k"
    using offq' lenq' by (auto simp: inS)
  have pkp': "packed p' ps S" using pk packed_cong [OF fieldsS] by simp
  have posp': "\<forall>k\<in>set S. 0 < slotLen p' k" using posq' fieldsS by auto
  have sump': "sum_list (map (slotLen p') S) = sum_list (map (slotLen p) S)"
    using fieldsS sumq' by (metis (no_types, lifting) map_cong)
  from packed_bounds [OF pkp' posp']
  have bndp': "\<And>k. k \<in> set S \<Longrightarrow> f' \<le> slotOff p' k \<and> slotOff p' k + slotLen p' k \<le> ps"
    and srtp': "sorted_wrt (\<lambda>a b. slotOff p' b + slotLen p' b \<le> slotOff p' a) S"
    unfolding sump' f'_def [symmetric] by auto
  from I(9) obtain xs where xs: "distinct xs" "is_chain p (freeListHead p) xs" by blast
  have "is_chain p' (freeListHead p) xs \<longleftrightarrow> is_chain p (freeListHead p) xs"
  proof (rule is_chain_cong [OF scp'])
    show "\<forall>x\<in>set xs. slotOff p' x = slotOff p x \<and> (live p' x \<longleftrightarrow> live p x)"
      using is_chain_set [OF xs(2)] offdead livep' by (auto simp: sc_def)
  qed
  then have chain: "\<exists>xs. distinct xs \<and> is_chain p' (freeListHead p') xs"
    using xs flp' by auto
  have invp': "sp_inv ps p'"
  proof (rule sp_invI)
    show "int (length p') = ps" using lp' I(3) by simp
    show "0 \<le> slotCount p'" using scp' I(4) by simp
    show "8 + 4 * slotCount p' \<le> freePtr p'" using scp' fpp' f'b lolo by (simp add: sc_def)
    show "freePtr p' \<le> ps" using fpp' f'b by simp
    show "\<exists>xs. distinct xs \<and> is_chain p' (freeListHead p') xs" by (rule chain)
  next
    fix i assume i: "0 \<le> i" "i < slotCount p'" "live p' i"
    then have "i \<in> set S" using livep' [of i] scp' by (simp add: inS sc_def)
    from bndp' [OF this] show "freePtr p' \<le> slotOff p' i \<and> slotOff p' i + slotLen p' i \<le> ps"
      using fpp' by simp
  next
    fix i j assume ij: "0 \<le> i" "i < slotCount p'" "0 \<le> j" "j < slotCount p'" "i \<noteq> j"
      "live p' i" "live p' j"
    then have "i \<in> set S" "j \<in> set S" using livep' [of i] livep' [of j] scp' by (simp_all add: inS sc_def)
    from sorted_wrt_total [OF srtp' this ij(5)]
    show "slotOff p' i + slotLen p' i \<le> slotOff p' j \<or> slotOff p' j + slotLen p' j \<le> slotOff p' i"
      by auto
  qed (rule I(1) I(2))+
  have idem: "SP_CompactPage ps p' = Some p'"
  proof -
    note I' = sp_invD [OF invp']
    have dirps': "8 + 4 * slotCount p' \<le> ps" using I' by simp
    from compact_unfold [OF I'(1,2,3,4) dirps'] obtain S2 where
      ms2: "mset S2 = mset (live_slots p')"
      and srt2: "sorted_wrt (\<lambda>a b. slotOff p' b \<le> slotOff p' a) S2"
      and cp2: "SP_CompactPage ps p' = (move_loop p' ps S2 \<bind> (\<lambda>(p1, fp). set_freePtr p1 fp))"
      by auto
    have "live_slots p' = live_slots p"
      using scp' lenp' by (intro live_slots_cong) (auto simp: sc_def)
    then have msS: "mset S = mset S2" using ms ms2 by simp
    have strict: "sorted_wrt (\<lambda>a b. slotOff p' b < slotOff p' a) S"
      by (rule sorted_wrt_mono_rel [OF _ srtp']) (use posp' in auto)
    have S2: "S2 = S" using sorted_perm_unique [OF msS strict srt2] .
    have pre6': "\<forall>k\<in>set S. 0 \<le> k \<and> k < sc \<and> 0 < slotLen p' k \<and> f' \<le> slotOff p' k \<and>
           slotOff p' k + slotLen p' k \<le> ps"
      using bndp' posp' by (auto simp: inS)
    have lof': "8 + 4 * sc \<le> f'" using f'b lolo by simp
    from move_loop_spec [OF I'(3) I(2) _ lof' _ pre6' srtp'] I(4) pkp'
    have "move_loop p' ps S = Some (p', ps - sum_list (map (slotLen p') S))"
      by (auto simp: sc_def)
    then have "move_loop p' ps S = Some (p', f')" using sump' by (simp add: f'_def)
    moreover have "set_freePtr p' f' = Some p'"
    proof -
      have "put_short p' 4 (get_short p' 4) = p'" using I'(3,1) by (intro put_get_id) auto
      then show ?thesis using I'(3,1) fpp' by (simp add: set_hdr_Some freePtr_def)
    qed
    ultimately show ?thesis using cp2 S2 by simp
  qed
  show ?thesis
    using run invp' scp' flp' lenp' offdead bytes fpp' f'eq f'b idem
    by (auto simp: sc_def lo_def inS)
qed

subsection \<open>Free space\<close>

lemma free_space:
  assumes "8 \<le> int (length p)" "0 \<le> slotCount p"
  shows "SP_PageFreeSpace p = Some (freePtr p - (8 + 4 * slotCount p))"
proof -
  have r: "slotCount p \<le> 32767" using get_short_range [of p 0] by (simp add: slotCount_def)
  have a: "to_size_t (slotCount p) = slotCount p" using assms r by (intro to_size_t_id) auto
  have b: "to_size_t (slotCount p * 4) = slotCount p * 4" using assms r by (intro to_size_t_id) auto
  have c: "to_int (slotCount p * 4) = slotCount p * 4" using assms r by (intro to_int_id) auto
  have d: "to_size_t (8 + slotCount p * 4) = 8 + slotCount p * 4" using assms r by (intro to_size_t_id) auto
  have e: "to_int (8 + slotCount p * 4) = 8 + slotCount p * 4" using assms r by (intro to_int_id) auto
  show ?thesis
    unfolding SP_PageFreeSpace_def
    by (simp only: hdr_reads [OF assms(1)] Option.bind.simps Let_def a b c d e) simp
qed

lemma same_records_refl: "same_records p p"
  by (simp add: same_records_def)

lemma live_bytes_cong:
  assumes "slotCount q = slotCount p" "\<forall>i. 0 \<le> i \<and> i < slotCount p \<longrightarrow> slotLen q i = slotLen p i"
  shows "live_bytes q = live_bytes p"
proof -
  have "live_slots q = live_slots p" using assms by (rule live_slots_cong)
  moreover have "map (slotLen q) (live_slots p) = map (slotLen p) (live_slots p)"
    using assms(2) by (intro map_cong) (auto simp: live_slots_set)
  ultimately show ?thesis unfolding live_bytes_def by (simp only:)
qed

lemma same_records_live_bytes: "same_records p q \<Longrightarrow> live_bytes q = live_bytes p"
  by (rule live_bytes_cong) (auto simp: same_records_def)

lemma compact_same_records:
  assumes "sp_inv ps p"
  shows "\<exists>p'. SP_CompactPage ps p = Some p' \<and> sp_inv ps p' \<and> same_records p p' \<and>
     freePtr p' = ps - live_bytes p \<and> freePtr p \<le> freePtr p' \<and> SP_CompactPage ps p' = Some p'"
  using compact_spec [OF assms] unfolding same_records_def by blast

lemma packing_bound:
  assumes "sp_inv ps p"
  shows "live_bytes p \<le> ps - freePtr p"
  using compact_same_records [OF assms] by auto

lemma ensure_spec:
  assumes inv: "sp_inv ps p"
  shows "\<exists>rc p1. SP_EnsureSpace ps p needed = Some (rc, p1) \<and> sp_inv ps p1 \<and> same_records p p1 \<and>
     (rc = SP_OK \<or> rc = SP_ERR_NOSPACE) \<and>
     (rc = SP_OK \<longleftrightarrow> needed \<le> ps - live_bytes p - (8 + 4 * slotCount p)) \<and>
     (rc = SP_OK \<longrightarrow> needed \<le> freePtr p1 - (8 + 4 * slotCount p))"
proof -
  note I = sp_invD [OF inv]
  have l8: "8 \<le> int (length p)" using I by simp
  have fs: "SP_PageFreeSpace p = Some (freePtr p - (8 + 4 * slotCount p))"
    using l8 I(4) by (rule free_space)
  show ?thesis
  proof (cases "needed \<le> freePtr p - (8 + 4 * slotCount p)")
    case True
    then have "SP_EnsureSpace ps p needed = Some (SP_OK, p)"
      unfolding SP_EnsureSpace_def by (simp add: fs)
    moreover have "needed \<le> ps - live_bytes p - (8 + 4 * slotCount p)"
      using True packing_bound [OF inv] by simp
    ultimately show ?thesis using inv True same_records_refl by (auto simp: SP_OK_def SP_ERR_NOSPACE_def)
  next
    case False
    from compact_same_records [OF inv] obtain p' where
      c: "SP_CompactPage ps p = Some p'" and inv': "sp_inv ps p'" and sr: "same_records p p'"
      and fp: "freePtr p' = ps - live_bytes p"
      by blast
    note I' = sp_invD [OF inv']
    have sc: "slotCount p' = slotCount p" using sr by (simp add: same_records_def)
    have fs': "SP_PageFreeSpace p' = Some (freePtr p' - (8 + 4 * slotCount p'))"
      using I'(1,3,4) by (intro free_space) auto
    have "SP_EnsureSpace ps p needed =
        Some (if needed \<le> freePtr p' - (8 + 4 * slotCount p') then SP_OK else SP_ERR_NOSPACE, p')"
      unfolding SP_EnsureSpace_def using False by (simp add: fs c fs')
    then show ?thesis using inv' sr fp sc by (auto simp: SP_OK_def SP_ERR_NOSPACE_def)
  qed
qed

subsection \<open>Written bytes and the sum of the live lengths\<close>

lemma get_short_wr:
  assumes "0 \<le> d" "d + int (length bs) \<le> int (length p)" "0 \<le> a" "a + 2 \<le> int (length p)"
    "a + 2 \<le> d \<or> d + int (length bs) \<le> a"
  shows "get_short (take (nat d) p @ bs @ drop (nat d + length bs) p) a = get_short p a"
proof (rule get_short_cong)
  show "(take (nat d) p @ bs @ drop (nat d + length bs) p) ! nat a = p ! nat a"
    using assms by (subst nth_wr) auto
  show "(take (nat d) p @ bs @ drop (nat d + length bs) p) ! nat (a + 1) = p ! nat (a + 1)"
    using assms by (subst nth_wr) auto
qed

lemma field_put_same:
  "6 \<le> int (length p) \<Longrightarrow> freePtr (put_short p 4 v) = to_short v"
  "4 \<le> int (length p) \<Longrightarrow> freeListHead (put_short p 2 v) = to_short v"
  "2 \<le> int (length p) \<Longrightarrow> slotCount (put_short p 0 v) = to_short v"
  "0 \<le> i \<Longrightarrow> SP_SLOT i + 2 \<le> int (length p) \<Longrightarrow> slotOff (put_short p (SP_SLOT i) v) i = to_short v"
  "0 \<le> i \<Longrightarrow> SP_SLOT i + 4 \<le> int (length p) \<Longrightarrow> slotLen (put_short p (SP_SLOT i + 2) v) i = to_short v"
  unfolding freePtr_def freeListHead_def slotCount_def slotOff_def slotLen_def
  by (simp_all add: get_put_same SP_SLOT_def)

lemma live_bytes_sum:
  "live_bytes p = (\<Sum>i\<in>{0..<slotCount p}. if live p i then slotLen p i else 0)"
proof -
  have "live_bytes p = sum_list (map (\<lambda>i. if live p i then slotLen p i else 0) [0..slotCount p - 1])"
    unfolding live_bytes_def live_slots_def by (simp add: sum_list_map_filter')
  also have "\<dots> = (\<Sum>i\<in>set [0..slotCount p - 1]. if live p i then slotLen p i else 0)"
    by (rule sum_list_distinct_conv_sum_set) simp
  also have "set [0..slotCount p - 1] = {0..<slotCount p}" by auto
  finally show ?thesis .
qed

lemma live_bytes_change:
  assumes "slotCount q = slotCount p" "0 \<le> s" "s < slotCount p"
    "\<forall>i. 0 \<le> i \<and> i < slotCount p \<and> i \<noteq> s \<longrightarrow> slotLen q i = slotLen p i"
  shows "live_bytes q = live_bytes p - (if live p s then slotLen p s else 0) + (if live q s then slotLen q s else 0)"
proof -
  let ?g = "\<lambda>r i. if live r i then slotLen r i else 0"
  have fin: "finite {0..<slotCount p}" by simp
  have sin: "s \<in> {0..<slotCount p}" using assms by simp
  have r: "sum (?g q) ({0..<slotCount p} - {s}) = sum (?g p) ({0..<slotCount p} - {s})"
    using assms(4) by (intro sum.cong) (auto simp: live_def)
  have q: "sum (?g q) {0..<slotCount p} = ?g q s + sum (?g q) ({0..<slotCount p} - {s})"
    by (rule sum.remove [OF fin sin])
  have p: "sum (?g p) {0..<slotCount p} = ?g p s + sum (?g p) ({0..<slotCount p} - {s})"
    by (rule sum.remove [OF fin sin])
  have "live_bytes q = ?g q s + sum (?g q) ({0..<slotCount p} - {s})"
    unfolding live_bytes_sum assms(1) by (rule q)
  moreover have "live_bytes p = ?g p s + sum (?g p) ({0..<slotCount p} - {s})"
    unfolding live_bytes_sum by (rule p)
  ultimately show ?thesis unfolding r by linarith
qed

lemma live_bytes_grow:
  assumes "slotCount q = slotCount p + 1" "0 \<le> slotCount p"
    "\<forall>i. 0 \<le> i \<and> i < slotCount p \<longrightarrow> slotLen q i = slotLen p i"
  shows "live_bytes q = live_bytes p + (if live q (slotCount p) then slotLen q (slotCount p) else 0)"
proof -
  let ?g = "\<lambda>r i. if live r i then slotLen r i else 0"
  have "{0..<slotCount p + 1} = insert (slotCount p) {0..<slotCount p}" using assms(2) by auto
  then have a: "sum (?g q) {0..<slotCount p + 1} = ?g q (slotCount p) + sum (?g q) {0..<slotCount p}"
    by simp
  have b: "sum (?g q) {0..<slotCount p} = sum (?g p) {0..<slotCount p}"
    using assms(3) by (intro sum.cong) (auto simp: live_def)
  have "live_bytes q = ?g q (slotCount p) + sum (?g p) {0..<slotCount p}"
    unfolding live_bytes_sum assms(1) a b ..
  then show ?thesis unfolding live_bytes_sum by linarith
qed

subsection \<open>The writes of an insertion\<close>

lemma ins_fields:
  fixes p1 :: page and ps k dest len fp ha hv :: int and data :: "byte list"
  assumes len1: "int (length p1) = ps" and ps: "ps \<le> 32767" and k: "0 \<le> k"
    and dir: "SP_SLOT k + 4 \<le> dest" and fp: "dest + len = fp" "fp \<le> ps" and len: "0 < len"
    and data: "nat len \<le> length data" and ha: "ha = 0 \<or> ha = 2"
  defines "p2 \<equiv> take (nat dest) p1 @ take (nat len) data @ drop (nat dest + length (take (nat len) data)) p1"
  defines "p6 \<equiv> put_short (put_short (put_short (put_short p2 4 dest) ha hv) (SP_SLOT k) dest)
      (SP_SLOT k + 2) len"
  shows "length p6 = length p1"
    and "freePtr p6 = dest"
    and "slotOff p6 k = dest" and "slotLen p6 k = len"
    and "\<And>i. 0 \<le> i \<Longrightarrow> i \<noteq> k \<Longrightarrow> SP_SLOT i + 4 \<le> dest \<Longrightarrow>
           slotOff p6 i = slotOff p1 i \<and> slotLen p6 i = slotLen p1 i"
    and "\<And>b. fp \<le> b \<Longrightarrow> b < ps \<Longrightarrow> p6 ! nat b = p1 ! nat b"
    and "\<And>b. dest \<le> b \<Longrightarrow> b < fp \<Longrightarrow> p6 ! nat b = data ! nat (b - dest)"
    and "ha = 2 \<Longrightarrow> slotCount p6 = slotCount p1 \<and> freeListHead p6 = to_short hv"
    and "ha = 0 \<Longrightarrow> slotCount p6 = to_short hv \<and> freeListHead p6 = freeListHead p1"
proof -
  have sk: "SP_SLOT k = 8 + k * 4" by (simp add: SP_SLOT_def)
  have b: "12 \<le> dest" "0 \<le> dest" "dest \<le> 32767" "len \<le> 32767" "dest + len \<le> ps" "0 < len"
    using k dir fp len ps by (auto simp: sk)
  define bs where "bs = take (nat len) data"
  have lbs: "length bs = nat len" "int (length bs) = len" using data len by (auto simp: bs_def)
  have p2: "p2 = take (nat dest) p1 @ bs @ drop (nat dest + length bs) p1"
    by (simp add: p2_def bs_def)
  have l2: "length p2 = length p1" using b len1 lbs by (simp add: p2)
  have p2b: "p2 ! nat a = (if dest \<le> a \<and> a < fp then bs ! nat (a - dest) else p1 ! nat a)"
    if "0 \<le> a" "a < ps" for a
    unfolding p2 using that b len1 lbs fp by (subst nth_wr) auto
  have p2g: "get_short p2 a = get_short p1 a" if "0 \<le> a" "a + 2 \<le> dest" for a
    unfolding p2 using that b len1 lbs by (intro get_short_wr) auto
  define p3 where "p3 = put_short p2 4 dest"
  define p4 where "p4 = put_short p3 ha hv"
  define p5 where "p5 = put_short p4 (SP_SLOT k) dest"
  have p6: "p6 = put_short p5 (SP_SLOT k + 2) len"
    by (simp add: p6_def p5_def p4_def p3_def)
  have ls: "length p3 = length p1" "length p4 = length p1" "length p5 = length p1"
    by (simp_all add: p3_def p4_def p5_def l2)
  show "length p6 = length p1" by (simp add: p6 ls)
  have lenb: "SP_SLOT k + 4 \<le> int (length p1)" using dir b len1 len by simp
  show "freePtr p6 = dest"
    unfolding p6 p5_def p4_def p3_def using ha k b l2 len1
    by (auto simp add: freePtr_put field_put_same to_short_id sk)
  have skge: "8 \<le> SP_SLOT k" using k by (rule SP_SLOT_ge)
  show "slotOff p6 k = dest"
    unfolding p6 p5_def using k b ls lenb skge
    by (simp add: slotOff_put field_put_same to_short_id)
  show "slotLen p6 k = len"
    unfolding p6 using k b ls lenb len
    by (simp add: field_put_same to_short_id)
  show "slotOff p6 i = slotOff p1 i \<and> slotLen p6 i = slotLen p1 i"
    if i: "0 \<le> i" "i \<noteq> k" "SP_SLOT i + 4 \<le> dest" for i
  proof -
    have si: "SP_SLOT i = 8 + i * 4" by (simp add: SP_SLOT_def)
    have o2: "slotOff p2 i = slotOff p1 i" unfolding slotOff_def using i by (intro p2g) (auto simp: si)
    have n2: "slotLen p2 i = slotLen p1 i" unfolding slotLen_def using i by (intro p2g) (auto simp: si)
    from SP_SLOT_sep [OF i(2)] show ?thesis
    proof
      assume "SP_SLOT i + 4 \<le> SP_SLOT k"
      then show ?thesis
        unfolding p6 p5_def p4_def p3_def using ha i k o2 n2
        by (auto simp add: slotOff_put slotLen_put si sk)
    next
      assume "SP_SLOT k + 4 \<le> SP_SLOT i"
      then show ?thesis
        unfolding p6 p5_def p4_def p3_def using ha i k o2 n2
        by (auto simp add: slotOff_put slotLen_put si sk)
    qed
  qed
  have hi: "p6 ! nat a = p2 ! nat a" if "dest \<le> a" for a
    unfolding p6 p5_def p4_def p3_def using that ha k dir b
    by (auto simp add: nth_put_short sk)
  show "p6 ! nat c = p1 ! nat c" if "fp \<le> c" "c < ps" for c
    using hi [of c] p2b [of c] that b fp len by simp
  show "p6 ! nat c = data ! nat (c - dest)" if "dest \<le> c" "c < fp" for c
    using hi [of c] p2b [of c] that b fp len by (simp add: bs_def)
  show "slotCount p6 = slotCount p1 \<and> freeListHead p6 = to_short hv" if "ha = 2"
  proof -
    have "slotCount p2 = slotCount p1" unfolding slotCount_def using b by (intro p2g) auto
    then show ?thesis
      unfolding p6 p5_def p4_def p3_def using that k b l2 len1
      by (simp add: slotCount_put freeListHead_put field_put_same sk)
  qed
  show "slotCount p6 = to_short hv \<and> freeListHead p6 = freeListHead p1" if "ha = 0"
  proof -
    have "freeListHead p2 = freeListHead p1" unfolding freeListHead_def using b by (intro p2g) auto
    then show ?thesis
      unfolding p6 p5_def p4_def p3_def using that k b l2 len1
      by (simp add: slotCount_put freeListHead_put field_put_same sk)
  qed
qed

subsection \<open>The invariant after an insertion\<close>

lemma is_chain_cong':
  assumes "\<forall>x\<in>set xs. (x < slotCount q \<longleftrightarrow> x < slotCount p) \<and> slotOff q x = slotOff p x \<and>
      (live q x \<longleftrightarrow> live p x)"
  shows "is_chain q h xs \<longleftrightarrow> is_chain p h xs"
  using assms by (induction xs arbitrary: h) auto

lemma ins_inv:
  assumes inv1: "sp_inv ps p1"
    and a0: "length p6 = length p1"
    and a1: "slotCount p6 = sc'" "slotCount p1 \<le> sc'" "0 \<le> k" "k < sc'"
      "\<forall>i. 0 \<le> i \<and> i < sc' \<and> i \<noteq> k \<longrightarrow> i < slotCount p1"
    and a2: "freePtr p6 = dest" "dest + len = freePtr p1" "0 < len" "8 + 4 * sc' \<le> dest"
    and a3: "slotOff p6 k = dest" "slotLen p6 k = len"
    and a4: "\<forall>i. 0 \<le> i \<and> i < slotCount p1 \<and> i \<noteq> k \<longrightarrow>
               slotOff p6 i = slotOff p1 i \<and> slotLen p6 i = slotLen p1 i"
    and a5: "\<forall>b. freePtr p1 \<le> b \<and> b < ps \<longrightarrow> p6 ! nat b = p1 ! nat b"
    and a6: "k < slotCount p1 \<longrightarrow> \<not> live p1 k"
    and a7: "\<exists>xs. distinct xs \<and> is_chain p1 (freeListHead p6) xs \<and> k \<notin> set xs"
  shows "sp_inv ps p6"
    and "\<forall>i. 0 \<le> i \<and> i < slotCount p1 \<and> live p1 i \<longrightarrow>
           live p6 i \<and> slotLen p6 i = slotLen p1 i \<and> slot_bytes p6 i = slot_bytes p1 i"
proof -
  note I = sp_invD [OF inv1]
  have old: "i \<noteq> k \<and> slotOff p6 i = slotOff p1 i \<and> slotLen p6 i = slotLen p1 i \<and> live p6 i"
    if "0 \<le> i" "i < slotCount p1" "live p1 i" for i
  proof -
    have "i \<noteq> k" using that a6 by auto
    then show ?thesis using that a4 by (auto simp: live_def)
  qed
  have livek: "live p6 k" using a3 a2 by (simp add: live_def)
  have cases6: "i = k \<or> (i < slotCount p1 \<and> live p1 i \<and> i \<noteq> k)"
    if "0 \<le> i" "i < sc'" "live p6 i" for i
  proof (cases "i = k")
    case True then show ?thesis by simp
  next
    case False
    then have "i < slotCount p1" using that a1(5) by auto
    then show ?thesis using False that a4 by (auto simp: live_def)
  qed
  show f: "\<forall>i. 0 \<le> i \<and> i < slotCount p1 \<and> live p1 i \<longrightarrow>
           live p6 i \<and> slotLen p6 i = slotLen p1 i \<and> slot_bytes p6 i = slot_bytes p1 i"
  proof (intro allI impI)
    fix i assume i: "0 \<le> i \<and> i < slotCount p1 \<and> live p1 i"
    then have o: "i \<noteq> k" "slotOff p6 i = slotOff p1 i" "slotLen p6 i = slotLen p1 i" "live p6 i"
      using old [of i] by auto
    have r: "freePtr p1 \<le> slotOff p1 i" "slotOff p1 i + slotLen p1 i \<le> ps" using I(7) [of i] i by auto
    have p0: "0 \<le> slotOff p1 i" using r I(4,5) by linarith
    have "slot_bytes p6 i = slot_bytes p1 i"
    proof (rule slot_bytes_eqI)
      show "\<forall>j. 0 \<le> j \<and> j < slotLen p1 i \<longrightarrow> p6 ! nat (slotOff p6 i + j) = p1 ! nat (slotOff p1 i + j)"
        using r o a5 by auto
      show "slotLen p6 i = slotLen p1 i" by (rule o(3))
      show "0 \<le> slotLen p1 i" using i by (simp add: live_def)
      show "0 \<le> slotOff p1 i" by (rule p0)
      show "0 \<le> slotOff p6 i" using p0 o by simp
      show "slotOff p1 i + slotLen p1 i \<le> int (length p1)" using r I(3) by simp
      show "slotOff p6 i + slotLen p1 i \<le> int (length p6)" using r I(3) o a0 by simp
    qed
    then show "live p6 i \<and> slotLen p6 i = slotLen p1 i \<and> slot_bytes p6 i = slot_bytes p1 i"
      using o by simp
  qed
  from a7 obtain xs where xs: "distinct xs" "is_chain p1 (freeListHead p6) xs" "k \<notin> set xs" by blast
  have "is_chain p6 (freeListHead p6) xs \<longleftrightarrow> is_chain p1 (freeListHead p6) xs"
  proof (rule is_chain_cong')
    show "\<forall>x\<in>set xs. (x < slotCount p6 \<longleftrightarrow> x < slotCount p1) \<and> slotOff p6 x = slotOff p1 x \<and>
      (live p6 x \<longleftrightarrow> live p1 x)"
    proof
      fix x assume x: "x \<in> set xs"
      then have xb: "0 \<le> x" "x < slotCount p1" "x \<noteq> k" using is_chain_set [OF xs(2)] xs(3) by auto
      then show "(x < slotCount p6 \<longleftrightarrow> x < slotCount p1) \<and> slotOff p6 x = slotOff p1 x \<and>
          (live p6 x \<longleftrightarrow> live p1 x)"
        using a1 a4 by (auto simp: live_def)
    qed
  qed
  then have chain: "\<exists>xs. distinct xs \<and> is_chain p6 (freeListHead p6) xs" using xs by blast
  show "sp_inv ps p6"
  proof (rule sp_invI)
    show "int (length p6) = ps" using a0 I(3) by simp
    show "0 \<le> slotCount p6" using a1 I(4) by simp
    show "8 + 4 * slotCount p6 \<le> freePtr p6" using a1 a2 by simp
    show "freePtr p6 \<le> ps" using a2 I(6) by simp
    show "\<exists>xs. distinct xs \<and> is_chain p6 (freeListHead p6) xs" by (rule chain)
  next
    fix i assume i: "0 \<le> i" "i < slotCount p6" "live p6 i"
    have "i = k \<or> (i < slotCount p1 \<and> live p1 i \<and> i \<noteq> k)"
      using cases6 [of i] i a1(1) by simp
    then show "freePtr p6 \<le> slotOff p6 i \<and> slotOff p6 i + slotLen p6 i \<le> ps"
    proof
      assume "i = k"
      then show ?thesis using a2 a3 I(6) by simp
    next
      assume o: "i < slotCount p1 \<and> live p1 i \<and> i \<noteq> k"
      then show ?thesis using I(7) [of i] i a4 a2 by auto
    qed
  next
    fix i j assume ij: "0 \<le> i" "i < slotCount p6" "0 \<le> j" "j < slotCount p6" "i \<noteq> j"
      "live p6 i" "live p6 j"
    have new_old: "slotOff p6 a + slotLen p6 a \<le> slotOff p6 b"
      if "a = k" "b < slotCount p1" "live p1 b" "b \<noteq> k" "0 \<le> b" for a b
      using that I(7) [of b] a4 a2 a3 by auto
    from cases6 [of i] cases6 [of j] ij a1(1)
    consider "i = k" "j < slotCount p1 \<and> live p1 j \<and> j \<noteq> k"
      | "j = k" "i < slotCount p1 \<and> live p1 i \<and> i \<noteq> k"
      | "i < slotCount p1 \<and> live p1 i \<and> i \<noteq> k" "j < slotCount p1 \<and> live p1 j \<and> j \<noteq> k"
      by auto
    then show "slotOff p6 i + slotLen p6 i \<le> slotOff p6 j \<or> slotOff p6 j + slotLen p6 j \<le> slotOff p6 i"
    proof cases
      case 1
      then show ?thesis using new_old [of i j] ij by simp
    next
      case 2
      then show ?thesis using new_old [of j i] ij by simp
    next
      case 3
      then show ?thesis using I(8) [of i j] ij a4 by auto
    qed
  qed (rule I(1) I(2))+
qed

subsection \<open>Running an insertion\<close>

lemma insert_run:
  fixes p1 :: page and data :: "byte list"
  assumes inv1: "sp_inv ps p1" and len: "0 < len" "len \<le> 32767" and data: "nat len \<le> length data"
    and room: "len + (if freeListHead p1 = - 1 then 4 else 0) \<le> freePtr p1 - (8 + 4 * slotCount p1)"
  defines "dest \<equiv> freePtr p1 - len"
  defines "k \<equiv> (if freeListHead p1 = - 1 then slotCount p1 else freeListHead p1)"
  defines "ha \<equiv> (if freeListHead p1 = - 1 then 0 else 2 :: int)"
  defines "hv \<equiv> (if freeListHead p1 = - 1 then slotCount p1 + 1 else slotOff p1 (freeListHead p1))"
  defines "p2 \<equiv> take (nat dest) p1 @ take (nat len) data @ drop (nat dest + length (take (nat len) data)) p1"
  defines "p6 \<equiv> put_short (put_short (put_short (put_short p2 4 dest) ha hv) (SP_SLOT k) dest)
      (SP_SLOT k + 2) len"
  shows "(do {
         fp \<leftarrow> hdr_freePtr p1;
         let dest = to_short (fp - len);
         if to_size_t dest < 8 then Some (SP_ERR_NOSPACE, None, p1)
         else do {
           p2 \<leftarrow> memcpy p1 dest data (to_size_t len);
           p3 \<leftarrow> set_freePtr p2 dest;
           (id, p4) \<leftarrow> SP_ReserveSlot ps p3;
           if id < 0 then Some (id, None, p4)
           else do {
             p5 \<leftarrow> set_slot_offset p4 id dest;
             p6 \<leftarrow> set_slot_length p5 id len;
             Some (SP_OK, Some (to_short id), p6)
           }
         }
       }) = Some (SP_OK, Some k, p6)"
    and "0 \<le> k" and "SP_SLOT k + 4 \<le> dest"
    and "freeListHead p1 \<noteq> - 1 \<Longrightarrow> k < slotCount p1 \<and> \<not> live p1 k"
proof -
  note I = sp_invD [OF inv1]
  define sc where "sc = slotCount p1"
  define flh where "flh = freeListHead p1"
  from I(9) obtain xs where xs: "distinct xs" "is_chain p1 flh xs" unfolding flh_def by blast
  have kA: "0 \<le> flh \<and> flh < sc \<and> \<not> live p1 flh" if "flh \<noteq> - 1"
    using xs(2) that by (cases xs) (auto simp: sc_def)
  show k0: "0 \<le> k" using kA I(4) by (auto simp: k_def flh_def sc_def)
  show kd: "SP_SLOT k + 4 \<le> dest"
    using kA room I(4) by (auto simp: k_def dest_def SP_SLOT_def flh_def sc_def split: if_splits)
  show "freeListHead p1 \<noteq> - 1 \<Longrightarrow> k < slotCount p1 \<and> \<not> live p1 k"
    using kA by (auto simp: k_def flh_def sc_def)
  have b: "12 \<le> dest" "dest \<le> 32767" "dest + len \<le> ps" "0 \<le> dest" "8 \<le> int (length p1)"
    "dest + len = freePtr p1"
    using k0 kd I len by (auto simp: dest_def SP_SLOT_def)
  have r1: "hdr_freePtr p1 = Some (freePtr p1)" using b by (intro hdr_reads) auto
  have r2: "to_short (freePtr p1 - len) = dest" using b by (simp add: dest_def to_short_id)
  have r3: "to_size_t dest = dest" "to_size_t len = len" using b len by (auto intro!: to_size_t_id)
  have r4: "\<not> dest < 8" using b by simp
  define bs where "bs = take (nat len) data"
  have lbs: "int (length bs) = len" using data len by (simp add: bs_def)
  have p2: "p2 = take (nat dest) p1 @ bs @ drop (nat dest + length bs) p1" by (simp add: p2_def bs_def)
  have r5: "memcpy p1 dest data len = Some p2"
    using b I(3) len data lbs unfolding memcpy_def wr_bytes_def p2 bs_def [symmetric] by simp
  have l2: "length p2 = length p1" using b I(3) lbs by (simp add: p2)
  define p3 where "p3 = put_short p2 4 dest"
  have r6: "set_freePtr p2 dest = Some p3" using b l2 by (simp add: set_hdr_Some p3_def)
  have l3: "length p3 = length p1" by (simp add: p3_def l2)
  have g2: "get_short p2 a = get_short p1 a" if "0 \<le> a" "a + 2 \<le> dest" for a
    unfolding p2 using that b I(3) lbs by (intro get_short_wr) auto
  have f2: "freeListHead p2 = flh" "slotCount p2 = sc"
    unfolding flh_def sc_def freeListHead_def slotCount_def using b by (auto intro!: g2)
  have f3: "freeListHead p3 = flh" "slotCount p3 = sc"
    unfolding p3_def using f2 by (simp_all add: freeListHead_put slotCount_put)
  define p4 where "p4 = put_short p3 ha hv"
  have r7: "SP_ReserveSlot ps p3 = Some (k, p4)"
  proof (cases "flh = - 1")
    case True
    have m: "SP_MAX_SLOTS ps = (ps - 8) div 4" using I(1,2) by (rule SP_MAX_SLOTS_eq)
    have "8 + 4 * sc + 4 < ps" using room True len I(6) by (simp add: flh_def sc_def)
    then have lt: "sc < (ps - 8) div 4" by simp
    have ts: "to_size_t sc = sc" using I(4) lt I(2) by (intro to_size_t_id) (auto simp: sc_def)
    have t2: "to_short (sc + 1) = sc + 1" using I(4) lt I(2) by (intro to_short_id) (auto simp: sc_def)
    have "set_slotCount p3 (sc + 1) = Some p4"
      using True b l3 by (simp add: set_hdr_Some p4_def ha_def hv_def flh_def sc_def)
    then show ?thesis
      unfolding SP_ReserveSlot_def using True b l3 f3 ts t2 m lt
      by (simp add: hdr_reads SP_INVALID_SLOT_def k_def flh_def sc_def)
  next
    case False
    note kA' = kA [OF False]
    have "SP_SLOT flh + 4 \<le> dest" using kd False by (simp add: k_def flh_def)
    then have "slotOff p2 flh = slotOff p1 flh"
      unfolding slotOff_def using kA' by (intro g2) (auto simp: SP_SLOT_def)
    moreover have "slotOff p3 flh = slotOff p2 flh"
      unfolding p3_def using kA' by (intro slotOff_put) (auto simp: SP_SLOT_def)
    ultimately have so: "slotOff p3 flh = slotOff p1 flh" by simp
    have rd: "slot_offset p3 flh = Some (slotOff p3 flh)"
      using kA' I(3,4,5,6) l3 by (intro slot_reads) (auto simp: sc_def)
    have "set_freeListHead p3 (slotOff p1 flh) = Some p4"
      using False b l3 by (simp add: set_hdr_Some p4_def ha_def hv_def flh_def)
    then show ?thesis
      unfolding SP_ReserveSlot_def using False b l3 f3 rd so
      by (simp add: hdr_reads SP_INVALID_SLOT_def k_def flh_def)
  qed
  have l4: "length p4 = length p1" by (simp add: p4_def l3)
  define p5 where "p5 = put_short p4 (SP_SLOT k) dest"
  have kb: "8 + 4 * k + 4 \<le> int (length p1)" using kd b I(3) len by (simp add: SP_SLOT_def)
  have r8: "set_slot_offset p4 k dest = Some p5"
    unfolding p5_def using k0 kb l4 by (intro set_slot_Some) auto
  have p6': "p6 = put_short p5 (SP_SLOT k + 2) len"
    by (simp add: p6_def p5_def p4_def p3_def)
  have r9: "set_slot_length p5 k len = Some p6"
    unfolding p6' using k0 kb l4 by (intro set_slot_Some) (auto simp: p5_def)
  have r10: "to_short k = k" "\<not> k < 0"
    using k0 kb I(2,3) by (auto intro!: to_short_id)
  show "(do {
         fp \<leftarrow> hdr_freePtr p1;
         let dest = to_short (fp - len);
         if to_size_t dest < 8 then Some (SP_ERR_NOSPACE, None, p1)
         else do {
           p2 \<leftarrow> memcpy p1 dest data (to_size_t len);
           p3 \<leftarrow> set_freePtr p2 dest;
           (id, p4) \<leftarrow> SP_ReserveSlot ps p3;
           if id < 0 then Some (id, None, p4)
           else do {
             p5 \<leftarrow> set_slot_offset p4 id dest;
             p6 \<leftarrow> set_slot_length p5 id len;
             Some (SP_OK, Some (to_short id), p6)
           }
         }
       }) = Some (SP_OK, Some k, p6)"
    by (simp only: r1 r2 r3 r4 r5 r6 r7 r8 r9 r10 Option.bind.simps Let_def if_False prod.case)
qed

subsection \<open>The specification of an insertion\<close>

lemma slot_bytes_new:
  assumes "slotOff q k = dest" "slotLen q k = len" "0 \<le> dest" "0 < len" "dest + len \<le> int (length q)"
    "nat len \<le> length data" "\<forall>b. dest \<le> b \<and> b < dest + len \<longrightarrow> q ! nat b = data ! nat (b - dest)"
  shows "slot_bytes q k = take (nat len) data"
  unfolding slot_bytes_def assms(1,2)
proof (rule nth_equalityI)
  show "length (take (nat len) (drop (nat dest) q)) = length (take (nat len) data)"
    using assms by simp
next
  fix i assume "i < length (take (nat len) (drop (nat dest) q))"
  then have i: "i < nat len" by simp
  have "q ! nat (dest + int i) = data ! nat (dest + int i - dest)"
    using assms(7) [rule_format, of "dest + int i"] i by simp
  then show "take (nat len) (drop (nat dest) q) ! i = take (nat len) data ! i"
    using i assms by (simp add: nat_add_distrib)
qed

lemma insert_spec:
  fixes p :: page and data :: "byte list"
  assumes inv: "sp_inv ps p" and lr: "len \<le> 32767" and data: "0 < len \<longrightarrow> nat len \<le> length data"
  defines "s \<equiv> (if freeListHead p = - 1 then slotCount p else freeListHead p)"
  shows "\<exists>rc sid p'. SP_InsertRecord ps p data len = Some (rc, sid, p') \<and> sp_inv ps p' \<and>
     (\<forall>i. 0 \<le> i \<and> i < slotCount p \<and> live p i \<longrightarrow>
        live p' i \<and> slotLen p' i = slotLen p i \<and> slot_bytes p' i = slot_bytes p i) \<and>
     (rc = SP_OK \<or> rc = SP_ERR_NOSPACE) \<and>
     (rc = SP_OK \<longleftrightarrow> 0 < len \<and>
        len + (if freeListHead p = - 1 then 4 else 0) \<le> ps - live_bytes p - (8 + 4 * slotCount p)) \<and>
     (rc = SP_OK \<longrightarrow> sid = Some s \<and> 0 \<le> s \<and> s < slotCount p' \<and> slotLen p' s = len \<and>
        slot_bytes p' s = take (nat len) data \<and>
        slotCount p' = (if freeListHead p = - 1 then slotCount p + 1 else slotCount p) \<and>
        freeListHead p' = (if freeListHead p = - 1 then - 1 else slotOff p s) \<and>
        (freeListHead p \<noteq> - 1 \<longrightarrow> s < slotCount p \<and> \<not> live p s) \<and>
        (\<forall>i. 0 \<le> i \<and> i < slotCount p \<and> i \<noteq> s \<longrightarrow> slotLen p' i = slotLen p i) \<and>
        live_bytes p' = live_bytes p + len) \<and>
     (rc \<noteq> SP_OK \<longrightarrow> sid = None \<and> same_records p p')"
proof -
  note I = sp_invD [OF inv]
  have l8: "8 \<le> int (length p)" using I by simp
  define flh where "flh = freeListHead p"
  define sc where "sc = slotCount p"
  define needed where "needed = len + (if flh = - 1 then 4 else 0)"
  have rd: "hdr_freeListHead p = Some flh" using l8 by (simp add: hdr_reads flh_def)
  show ?thesis
  proof (cases "len \<le> 0")
    case True
    then have "SP_InsertRecord ps p data len = Some (SP_ERR_NOSPACE, None, p)"
      unfolding SP_InsertRecord_def by (simp only: rd Option.bind.simps Let_def if_True)
    moreover have "SP_ERR_NOSPACE \<noteq> SP_OK" by (simp add: SP_OK_def SP_ERR_NOSPACE_def)
    ultimately show ?thesis using True inv same_records_refl [of p]
      by (intro exI [of _ SP_ERR_NOSPACE] exI [of _ None] exI [of _ p]) simp
  next
    case False
    then have len: "0 < len" by simp
    from ensure_spec [OF inv, of needed] obtain rc1 p1 where
      es: "SP_EnsureSpace ps p needed = Some (rc1, p1)" and inv1: "sp_inv ps p1"
      and sr: "same_records p p1" and rcs: "rc1 = SP_OK \<or> rc1 = SP_ERR_NOSPACE"
      and iff: "rc1 = SP_OK \<longleftrightarrow> needed \<le> ps - live_bytes p - (8 + 4 * slotCount p)"
      and room: "rc1 = SP_OK \<longrightarrow> needed \<le> freePtr p1 - (8 + 4 * slotCount p)"
      by blast
    have srD: "slotCount p1 = sc" "freeListHead p1 = flh"
      "\<And>i. 0 \<le> i \<Longrightarrow> i < sc \<Longrightarrow> slotLen p1 i = slotLen p i"
      "\<And>i. 0 \<le> i \<Longrightarrow> i < sc \<Longrightarrow> \<not> live p i \<Longrightarrow> slotOff p1 i = slotOff p i"
      "\<And>i. 0 \<le> i \<Longrightarrow> i < sc \<Longrightarrow> live p i \<Longrightarrow> slot_bytes p1 i = slot_bytes p i"
      using sr by (auto simp: same_records_def sc_def flh_def)
    have livep1: "live p1 i \<longleftrightarrow> live p i" if "0 \<le> i" "i < sc" for i
      using srD(3) [OF that] by (simp add: live_def)
    have unf: "SP_InsertRecord ps p data len =
       (if rc1 \<noteq> SP_OK then Some (SP_ERR_NOSPACE, None, p1)
        else do {
         fp \<leftarrow> hdr_freePtr p1;
         let dest = to_short (fp - len);
         if to_size_t dest < 8 then Some (SP_ERR_NOSPACE, None, p1)
         else do {
           p2 \<leftarrow> memcpy p1 dest data (to_size_t len);
           p3 \<leftarrow> set_freePtr p2 dest;
           (id, p4) \<leftarrow> SP_ReserveSlot ps p3;
           if id < 0 then Some (id, None, p4)
           else do {
             p5 \<leftarrow> set_slot_offset p4 id dest;
             p6 \<leftarrow> set_slot_length p5 id len;
             Some (SP_OK, Some (to_short id), p6)
           }
         }
       })"
    proof -
      have n: "len + (if flh = SP_INVALID_SLOT then 4 else 0) = needed"
        by (simp add: needed_def SP_INVALID_SLOT_def)
      show ?thesis
        unfolding SP_InsertRecord_def
        by (simp only: rd Option.bind.simps Let_def n False if_False es prod.case)
    qed
    show ?thesis
    proof (cases "rc1 = SP_OK")
      case nok: False
      then have "SP_InsertRecord ps p data len = Some (SP_ERR_NOSPACE, None, p1)"
        unfolding unf by (simp only: if_True simp_thms)
      moreover have "\<forall>i. 0 \<le> i \<and> i < slotCount p \<and> live p i \<longrightarrow>
          live p1 i \<and> slotLen p1 i = slotLen p i \<and> slot_bytes p1 i = slot_bytes p i"
        using srD livep1 by (auto simp: sc_def)
      moreover have "rc1 = SP_ERR_NOSPACE" using nok rcs by simp
      moreover have "\<not> (0 < len \<and> len + (if freeListHead p = - 1 then 4 else 0) \<le>
          ps - live_bytes p - (8 + 4 * slotCount p))"
        using iff nok by (simp add: needed_def flh_def)
      moreover have "SP_ERR_NOSPACE \<noteq> SP_OK" by (simp add: SP_OK_def SP_ERR_NOSPACE_def)
      ultimately show ?thesis using inv1 sr by (intro exI [of _ SP_ERR_NOSPACE] exI [of _ None] exI [of _ p1]) simp
    next
      case ok: True
      define dest where "dest = freePtr p1 - len"
      define ha where "ha = (if flh = - 1 then 0 else 2 :: int)"
      define hv where "hv = (if flh = - 1 then sc + 1 else slotOff p1 flh)"
      define p2 where "p2 = take (nat dest) p1 @ take (nat len) data @
          drop (nat dest + length (take (nat len) data)) p1"
      define p6 where "p6 = put_short (put_short (put_short (put_short p2 4 dest) ha hv)
          (SP_SLOT s) dest) (SP_SLOT s + 2) len"
      have dat: "nat len \<le> length data" using data len by simp
      have room1: "len + (if freeListHead p1 = - 1 then 4 else 0) \<le> freePtr p1 - (8 + 4 * slotCount p1)"
        using room ok srD(1,2) by (simp add: needed_def sc_def)
      have sk: "s = (if freeListHead p1 = - 1 then slotCount p1 else freeListHead p1)"
        by (simp add: s_def srD(1,2) flh_def sc_def)
      note run = insert_run [OF inv1 len lr dat room1, folded sk, unfolded srD(1,2), folded ha_def hv_def,
          folded dest_def, folded p2_def, folded p6_def]
      have e1: "(rc1 \<noteq> SP_OK) = False" using ok by simp
      have res: "SP_InsertRecord ps p data len = Some (SP_OK, Some s, p6)"
        unfolding unf e1 if_False by (rule run(1))
      note I1 = sp_invD [OF inv1]
      have hao: "ha = 0 \<or> ha = 2" by (simp add: ha_def)
      have fpe: "dest + len = freePtr p1" by (simp add: dest_def)
      note F = ins_fields [OF I1(3) I1(2) run(2) run(3) fpe I1(6) len dat hao, where hv = hv,
          folded p2_def, folded p6_def]
      have sA: "s < sc \<and> \<not> live p1 s \<and> \<not> live p s \<and> s = flh" if "flh \<noteq> - 1"
        using run(4) that livep1 [of s] run(2) by (auto simp: sc_def s_def flh_def)
      have sB: "s = sc" if "flh = - 1" using that by (simp add: s_def flh_def sc_def)
      have hvr: "to_short hv = hv"
      proof (rule to_short_id)
        show "- 32768 \<le> hv" using I(4) get_short_range [of p1 "SP_SLOT flh"]
          by (auto simp: hv_def sc_def slotOff_def)
        show "hv \<le> 32767" using I(5,6) I(2) get_short_range [of p1 "SP_SLOT flh"]
          by (auto simp: hv_def sc_def slotOff_def)
      qed
      define sc' where "sc' = (if flh = - 1 then sc + 1 else sc)"
      have sc6: "slotCount p6 = sc'"
        using F(8,9) hvr srD(1) by (auto simp: ha_def hv_def sc'_def)
      have fl6: "freeListHead p6 = (if flh = - 1 then - 1 else slotOff p1 flh)"
        using F(8,9) hvr srD(2) by (auto simp: ha_def hv_def)
      have dirb: "8 + 4 * sc' \<le> dest"
        using room1 srD(1,2) len by (auto simp: sc'_def dest_def)
      have others: "slotOff p6 i = slotOff p1 i \<and> slotLen p6 i = slotLen p1 i"
        if "0 \<le> i" "i < sc" "i \<noteq> s" for i
        using that dirb by (intro F(5)) (auto simp: SP_SLOT_def sc'_def split: if_splits)
      have a7: "\<exists>xs. distinct xs \<and> is_chain p1 (freeListHead p6) xs \<and> s \<notin> set xs"
      proof (cases "flh = - 1")
        case True
        then have "is_chain p1 (freeListHead p6) []" using fl6 by simp
        then show ?thesis by (intro exI [of _ "[]"]) simp
      next
        case False
        from I1(9) obtain xs where xs: "distinct xs" "is_chain p1 flh xs" using srD(2) by auto
        then obtain xs' where "xs = flh # xs'" using False by (cases xs) auto
        then have "distinct xs'" "is_chain p1 (slotOff p1 flh) xs'" "flh \<notin> set xs'"
          using xs by auto
        then show ?thesis using fl6 False sA by auto
      qed
      have ks: "0 \<le> s" "s < sc'" using run(2) sA sB by (auto simp: sc'_def)
      have a15: "\<forall>i. 0 \<le> i \<and> i < sc' \<and> i \<noteq> s \<longrightarrow> i < slotCount p1"
        using sB srD(1) by (auto simp: sc'_def)
      have a4: "\<forall>i. 0 \<le> i \<and> i < slotCount p1 \<and> i \<noteq> s \<longrightarrow>
               slotOff p6 i = slotOff p1 i \<and> slotLen p6 i = slotLen p1 i"
        using others srD(1) by auto
      have a5: "\<forall>b. freePtr p1 \<le> b \<and> b < ps \<longrightarrow> p6 ! nat b = p1 ! nat b" using F(6) by auto
      have a6: "s < slotCount p1 \<longrightarrow> \<not> live p1 s" using sA sB srD(1) by (cases "flh = - 1") auto
      have a12: "slotCount p1 \<le> sc'" using srD(1) by (simp add: sc'_def)
      note N = ins_inv [OF inv1 F(1) sc6 a12 ks a15 F(2) fpe len dirb F(3,4) a4 a5 a6 a7]
      have frame: "\<forall>i. 0 \<le> i \<and> i < slotCount p \<and> live p i \<longrightarrow>
          live p6 i \<and> slotLen p6 i = slotLen p i \<and> slot_bytes p6 i = slot_bytes p i"
      proof (intro allI impI)
        fix i assume i: "0 \<le> i \<and> i < slotCount p \<and> live p i"
        then have "0 \<le> i \<and> i < slotCount p1 \<and> live p1 i" using livep1 [of i] srD(1) by (simp add: sc_def)
        with N(2) have "live p6 i \<and> slotLen p6 i = slotLen p1 i \<and> slot_bytes p6 i = slot_bytes p1 i"
          by blast
        then show "live p6 i \<and> slotLen p6 i = slotLen p i \<and> slot_bytes p6 i = slot_bytes p i"
          using i srD(3) [of i] srD(5) [of i] by (simp add: sc_def)
      qed
      have nb: "slot_bytes p6 s = take (nat len) data"
      proof (rule slot_bytes_new [OF F(3,4) _ len _ dat])
        show "0 \<le> dest" using dirb ks by (auto simp: sc'_def split: if_splits)
        show "dest + len \<le> int (length p6)" using fpe I1(6) I1(3) F(1) by simp
        show "\<forall>b. dest \<le> b \<and> b < dest + len \<longrightarrow> p6 ! nat b = data ! nat (b - dest)"
          using F(7) fpe by auto
      qed
      have lb: "live_bytes p6 = live_bytes p + len"
      proof -
        have l6: "live p6 s" using F(4) len by (simp add: live_def)
        have "live_bytes p6 = live_bytes p1 + len"
        proof (cases "flh = - 1")
          case True
          from live_bytes_grow [of p6 p1] sc6 True srD(1) I1(4) a4 sB [OF True] l6 F(4)
          show ?thesis by (auto simp: sc'_def)
        next
          case False
          from live_bytes_change [of p6 p1 s] sc6 False srD(1) sA [OF False] run(2) a4 l6 F(4)
          show ?thesis by (auto simp: sc'_def)
        qed
        then show ?thesis using same_records_live_bytes [OF sr] by simp
      qed
      have oth: "\<forall>i. 0 \<le> i \<and> i < slotCount p \<and> i \<noteq> s \<longrightarrow> slotLen p6 i = slotLen p i"
        using others srD(3) by (auto simp: sc_def)
      have flp: "freeListHead p6 = (if freeListHead p = - 1 then - 1 else slotOff p s)"
      proof (cases "flh = - 1")
        case True
        then show ?thesis using fl6 by (simp add: flh_def)
      next
        case False
        then have "slotOff p1 flh = slotOff p s" using sA [OF False] srD(4) [of s] run(2) by auto
        then show ?thesis using fl6 False by (simp add: flh_def)
      qed
      have okiff: "0 < len \<and> len + (if freeListHead p = - 1 then 4 else 0) \<le>
          ps - live_bytes p - (8 + 4 * slotCount p)"
        using iff ok len by (simp add: needed_def flh_def)
      have scp: "slotCount p6 = (if freeListHead p = - 1 then slotCount p + 1 else slotCount p)"
        using sc6 by (simp add: sc'_def flh_def sc_def)
      have sAp: "freeListHead p \<noteq> - 1 \<longrightarrow> s < slotCount p \<and> \<not> live p s"
        using sA by (auto simp: flh_def sc_def)
      have s6: "s < slotCount p6" using ks sc6 by simp
      have A: "SP_OK = SP_OK \<or> SP_OK = SP_ERR_NOSPACE" by simp
      have B: "SP_OK = SP_OK \<longleftrightarrow> 0 < len \<and> len + (if freeListHead p = - 1 then 4 else 0) \<le>
          ps - live_bytes p - (8 + 4 * slotCount p)" using okiff by simp
      have D: "SP_OK \<noteq> SP_OK \<longrightarrow> Some s = None \<and> same_records p p6" by simp
      show ?thesis
        by (intro exI [of _ SP_OK] exI [of _ "Some s"] exI [of _ p6] conjI impI
            res N(1) frame A B D refl ks(1) s6 F(4) nb scp flp sAp oth lb)
    qed
  qed
qed

lemma init_spec:
  assumes "8 \<le> ps" "ps \<le> 32767" "int (length buf) = ps"
  shows "\<exists>p0. SP_InitPage ps buf = Some p0 \<and> sp_inv ps p0 \<and> slotCount p0 = 0 \<and>
     freeListHead p0 = - 1 \<and> freePtr p0 = ps \<and> live_bytes p0 = 0"
proof -
  define z where "z = replicate (nat ps) (0::byte) @ drop (nat ps) buf"
  define p0 where "p0 = put_short (put_short (put_short (put_short z 0 0) 2 (- 1)) 4 ps) 6 0"
  have lz: "int (length z) = ps" using assms by (simp add: z_def)
  have ms: "memset buf 0 (to_size_t ps) = Some z"
    using assms by (simp add: memset_def to_size_t_id z_def)
  have run: "SP_InitPage ps buf = Some p0"
    unfolding SP_InitPage_def using assms lz
    by (simp add: ms set_slotCount_def set_freeListHead_def set_freePtr_def set_attrLength_def
        wr_short_def SP_INVALID_SLOT_def to_short_id p0_def)
  have l0: "int (length p0) = ps" using lz by (simp add: p0_def)
  have sc: "slotCount p0 = 0"
    unfolding p0_def using lz assms by (simp add: slotCount_put field_put_same to_short_id)
  have fl: "freeListHead p0 = - 1"
    unfolding p0_def using lz assms by (simp add: freeListHead_put field_put_same to_short_id)
  have fp: "freePtr p0 = ps"
    unfolding p0_def using lz assms by (simp add: freePtr_put field_put_same to_short_id)
  have inv: "sp_inv ps p0"
  proof (rule sp_invI)
    show "\<exists>xs. distinct xs \<and> is_chain p0 (freeListHead p0) xs"
      using fl by (intro exI [of _ "[]"]) simp
  qed (use assms l0 sc fp in auto)
  have "live_slots p0 = []" by (simp add: live_slots_def sc)
  then have "live_bytes p0 = 0" by (simp add: live_bytes_def)
  then show ?thesis using run inv sc fl fp by blast
qed

lemma get_record_live:
  assumes "dir_ok p" "0 \<le> i" "i < slotCount p" "live p i"
  shows "SP_GetRecord p i = Some (SP_OK, Some (slotOff p i, slotLen p i))"
proof -
  have "8 \<le> int (length p)" "8 + 4 * i + 4 \<le> int (length p)"
    using assms by (auto simp: dir_ok_def)
  then show ?thesis
    unfolding SP_GetRecord_def using assms
    by (simp add: hdr_reads slot_reads live_def)
qed

lemma get_record_ok_iff:
  assumes "dir_ok p"
  shows "SP_GetRecord p i = Some (SP_OK, r) \<longleftrightarrow>
     0 \<le> i \<and> i < slotCount p \<and> live p i \<and> r = Some (slotOff p i, slotLen p i)"
proof (cases "0 \<le> i \<and> i < slotCount p")
  case True
  then have "8 \<le> int (length p)" "8 + 4 * i + 4 \<le> int (length p)"
    using assms by (auto simp: dir_ok_def)
  then show ?thesis
    unfolding SP_GetRecord_def using True
    by (auto simp add: hdr_reads slot_reads live_def SP_OK_def SP_ERR_INVALID_SLOT_def)
next
  case False
  have "8 \<le> int (length p)" using assms by (auto simp: dir_ok_def)
  then show ?thesis
    unfolding SP_GetRecord_def using False
    by (auto simp add: hdr_reads SP_OK_def SP_ERR_INVALID_SLOT_def)
qed

lemma record_bytes_slot:
  assumes "sp_inv ps p" "0 \<le> i" "i < slotCount p" "live p i"
  shows "record_bytes p (slotOff p i, slotLen p i) = Some (slot_bytes p i)"
proof -
  note I = sp_invD [OF assms(1)]
  have "freePtr p \<le> slotOff p i" "slotOff p i + slotLen p i \<le> ps" using I(7) assms by auto
  then show ?thesis
    using I(3,4,5) assms(4) by (simp add: record_bytes_def rd_bytes_def slot_bytes_def live_def)
qed

lemma insert_facts:
  fixes p :: page and data :: "byte list"
  assumes inv: "sp_inv ps p" and lr: "len \<le> 32767" and data: "0 < len \<longrightarrow> nat len \<le> length data"
    and ins: "SP_InsertRecord ps p data len = Some (rc, sid, p')"
  defines "s \<equiv> (if freeListHead p = - 1 then slotCount p else freeListHead p)"
  shows "sp_inv ps p'"
    and "\<And>i. 0 \<le> i \<Longrightarrow> i < slotCount p \<Longrightarrow> live p i \<Longrightarrow>
        live p' i \<and> slotLen p' i = slotLen p i \<and> slot_bytes p' i = slot_bytes p i"
    and "rc = SP_OK \<or> rc = SP_ERR_NOSPACE"
    and "rc = SP_OK \<longleftrightarrow> 0 < len \<and>
        len + (if freeListHead p = - 1 then 4 else 0) \<le> ps - live_bytes p - (8 + 4 * slotCount p)"
    and "rc = SP_OK \<Longrightarrow> sid = Some s \<and> 0 \<le> s \<and> s < slotCount p' \<and> slotLen p' s = len \<and>
        slot_bytes p' s = take (nat len) data \<and>
        slotCount p' = (if freeListHead p = - 1 then slotCount p + 1 else slotCount p) \<and>
        freeListHead p' = (if freeListHead p = - 1 then - 1 else slotOff p s) \<and>
        (freeListHead p \<noteq> - 1 \<longrightarrow> s < slotCount p \<and> \<not> live p s) \<and>
        (\<forall>i. 0 \<le> i \<and> i < slotCount p \<and> i \<noteq> s \<longrightarrow> slotLen p' i = slotLen p i) \<and>
        live_bytes p' = live_bytes p + len"
    and "rc \<noteq> SP_OK \<Longrightarrow> sid = None \<and> same_records p p'"
proof -
  from insert_spec [OF inv lr data] obtain rc0 sid0 p0 where
    r: "SP_InsertRecord ps p data len = Some (rc0, sid0, p0)" and
    f: "sp_inv ps p0"
     "\<forall>i. 0 \<le> i \<and> i < slotCount p \<and> live p i \<longrightarrow>
        live p0 i \<and> slotLen p0 i = slotLen p i \<and> slot_bytes p0 i = slot_bytes p i"
     "rc0 = SP_OK \<or> rc0 = SP_ERR_NOSPACE"
     "rc0 = SP_OK \<longleftrightarrow> 0 < len \<and>
        len + (if freeListHead p = - 1 then 4 else 0) \<le> ps - live_bytes p - (8 + 4 * slotCount p)"
     "rc0 = SP_OK \<longrightarrow> sid0 = Some s \<and> 0 \<le> s \<and> s < slotCount p0 \<and> slotLen p0 s = len \<and>
        slot_bytes p0 s = take (nat len) data \<and>
        slotCount p0 = (if freeListHead p = - 1 then slotCount p + 1 else slotCount p) \<and>
        freeListHead p0 = (if freeListHead p = - 1 then - 1 else slotOff p s) \<and>
        (freeListHead p \<noteq> - 1 \<longrightarrow> s < slotCount p \<and> \<not> live p s) \<and>
        (\<forall>i. 0 \<le> i \<and> i < slotCount p \<and> i \<noteq> s \<longrightarrow> slotLen p0 i = slotLen p i) \<and>
        live_bytes p0 = live_bytes p + len"
     "rc0 \<noteq> SP_OK \<longrightarrow> sid0 = None \<and> same_records p p0"
    unfolding s_def by blast
  have e: "rc0 = rc" "sid0 = sid" "p0 = p'" using r ins by simp_all
  show "sp_inv ps p'" using f(1) e by simp
  show "\<And>i. 0 \<le> i \<Longrightarrow> i < slotCount p \<Longrightarrow> live p i \<Longrightarrow>
        live p' i \<and> slotLen p' i = slotLen p i \<and> slot_bytes p' i = slot_bytes p i"
    using f(2) e by simp
  show "rc = SP_OK \<or> rc = SP_ERR_NOSPACE" using f(3) e by simp
  show "rc = SP_OK \<longleftrightarrow> 0 < len \<and>
        len + (if freeListHead p = - 1 then 4 else 0) \<le> ps - live_bytes p - (8 + 4 * slotCount p)"
    using f(4) e by simp
  show "rc = SP_OK \<Longrightarrow> sid = Some s \<and> 0 \<le> s \<and> s < slotCount p' \<and> slotLen p' s = len \<and>
        slot_bytes p' s = take (nat len) data \<and>
        slotCount p' = (if freeListHead p = - 1 then slotCount p + 1 else slotCount p) \<and>
        freeListHead p' = (if freeListHead p = - 1 then - 1 else slotOff p s) \<and>
        (freeListHead p \<noteq> - 1 \<longrightarrow> s < slotCount p \<and> \<not> live p s) \<and>
        (\<forall>i. 0 \<le> i \<and> i < slotCount p \<and> i \<noteq> s \<longrightarrow> slotLen p' i = slotLen p i) \<and>
        live_bytes p' = live_bytes p + len"
    using f(5) unfolding e by blast
  show "rc \<noteq> SP_OK \<Longrightarrow> sid = None \<and> same_records p p'" using f(6) unfolding e by blast
qed

lemma apply_inv:
  assumes "sp_inv ps p" "call_ok c"
  shows "\<exists>p'. sp_apply ps p c = Some p' \<and> sp_inv ps p'"
proof (cases c)
  case (Insert data len)
  then have l: "len \<le> 32767" "0 < len \<longrightarrow> nat len \<le> length data" using assms(2) by auto
  from insert_spec [OF assms(1) l] obtain rc sid p' where
    "SP_InsertRecord ps p data len = Some (rc, sid, p')" "sp_inv ps p'" by blast
  then show ?thesis using Insert by simp
next
  case (Delete s)
  have d: "dir_ok p" using assms(1) by (rule sp_inv_dir_ok)
  from delete_cases [OF d, of s] obtain rc p' where r: "SP_DeleteRecord p s = Some (rc, p')" by blast
  from delete_inv [OF assms(1) r] show ?thesis using Delete r by simp
qed

lemma run_inv:
  assumes "sp_inv ps p" "\<forall>c\<in>set cs. call_ok c"
  shows "\<exists>p'. sp_run ps p cs = Some p' \<and> sp_inv ps p'"
  using assms
proof (induction cs arbitrary: p)
  case Nil
  then show ?case by simp
next
  case (Cons c cs)
  from apply_inv [OF Cons.prems(1), of c] Cons.prems(2)
  obtain p1 where a: "sp_apply ps p c = Some p1" "sp_inv ps p1" by auto
  from Cons.IH [OF a(2)] Cons.prems(2) obtain p' where "sp_run ps p1 cs = Some p'" "sp_inv ps p'"
    by auto
  then show ?case using a by simp
qed

lemma int_lt_2: "0 \<le> i \<Longrightarrow> i < 2 \<Longrightarrow> i = 0 \<or> i = (1::int)"
  by arith

lemma fragmented_page_fields:
  "length fragmented_page = 32" "slotCount fragmented_page = 2" "freeListHead fragmented_page = 0"
  "freePtr fragmented_page = 22" "slotOff fragmented_page 0 = - 1" "slotLen fragmented_page 0 = - 1"
  "slotOff fragmented_page 1 = 22" "slotLen fragmented_page 1 = 6"
  by (simp_all add: fragmented_page_def slotCount_def slotLen_def slotOff_def freePtr_def
      freeListHead_def get_short_def to_short_def SP_SLOT_def)

lemma fragmented_page_inv: "sp_inv 32 fragmented_page"
proof (rule sp_invI)
  show "\<exists>xs. distinct xs \<and> is_chain fragmented_page (freeListHead fragmented_page) xs"
    by (intro exI [of _ "[0]"]) (simp add: fragmented_page_fields live_def)
next
  fix i assume "0 \<le> i" "i < slotCount fragmented_page" "live fragmented_page i"
  then show "freePtr fragmented_page \<le> slotOff fragmented_page i \<and>
      slotOff fragmented_page i + slotLen fragmented_page i \<le> 32"
    using int_lt_2 [of i] by (auto simp: fragmented_page_fields live_def)
next
  fix i j assume "0 \<le> i" "i < slotCount fragmented_page" "0 \<le> j" "j < slotCount fragmented_page"
    "i \<noteq> j" "live fragmented_page i" "live fragmented_page j"
  then show "slotOff fragmented_page i + slotLen fragmented_page i \<le> slotOff fragmented_page j \<or>
      slotOff fragmented_page j + slotLen fragmented_page j \<le> slotOff fragmented_page i"
    using int_lt_2 [of i] int_lt_2 [of j] by (auto simp: fragmented_page_fields live_def)
qed (simp_all add: fragmented_page_fields)

lemma fragmented_page_compact: "SP_CompactPage 32 fragmented_page = Some compacted_page"
proof -
  have a: "hdr_slotCount fragmented_page = Some 2"
    by (simp add: hdr_reads fragmented_page_fields)
  have b: "collect_loop 32 fragmented_page 2 0 [] = Some [1]" by code_simp
  have c: "sort_outer fragmented_page [1] (length [1::int]) 0 = Some [1]" by code_simp
  have d: "move_loop fragmented_page (to_short 32) [1] =
      Some ([2, 0, 0, 0, 22, 0, 0, 0, 255, 255, 255, 255, 26, 0, 6, 0, 0, 0, 0, 0, 0, 0,
      11, 12, 13, 14, 11, 12, 13, 14, 15, 16], 26)" by code_simp
  have e: "set_freePtr [2, 0, 0, 0, 22, 0, 0, 0, 255, 255, 255, 255, 26, 0, 6, 0, 0, 0, 0, 0, 0, 0,
      11, 12, 13, 14, 11, 12, 13, 14, 15, 16] 26 = Some compacted_page" by code_simp
  show ?thesis
    unfolding SP_CompactPage_def by (simp only: a b c d e Option.bind.simps prod.case)
qed


lemma insert_all_spec:
  assumes "sp_inv ps p" "\<forall>x\<in>set S. snd x \<le> 32767 \<and> nat (snd x) \<le> length (fst x)"
    "insert_all ps p S = Some (q, ids)"
  shows "sp_inv ps q \<and> length ids = length S \<and> slotCount p \<le> slotCount q \<and>
    (\<forall>i. 0 \<le> i \<and> i < slotCount p \<and> live p i \<longrightarrow>
        live q i \<and> slotLen q i = slotLen p i \<and> slot_bytes q i = slot_bytes p i) \<and>
    (\<forall>n<length S. 0 \<le> ids ! n \<and> ids ! n < slotCount q \<and> live q (ids ! n) \<and>
        slotLen q (ids ! n) = snd (S ! n) \<and>
        slot_bytes q (ids ! n) = take (nat (snd (S ! n))) (fst (S ! n)))"
  using assms
proof (induction S arbitrary: p ids)
  case Nil
  then show ?case by simp
next
  case (Cons x S)
  obtain data len where x: "x = (data, len)" by (cases x)
  from Cons.prems(3) obtain s p1 ids' where
    ins: "SP_InsertRecord ps p data len = Some (SP_OK, Some s, p1)"
    and rest: "insert_all ps p1 S = Some (q, ids')" and ids: "ids = s # ids'"
    unfolding x by (auto split: option.splits prod.splits if_splits)
  have l: "len \<le> 32767" "0 < len \<longrightarrow> nat len \<le> length data" using Cons.prems(2) x by auto
  note F = insert_facts [OF Cons.prems(1) l ins]
  have pos: "0 < len" using F(4) by simp
  have s: "0 \<le> s" "s < slotCount p1" "slotLen p1 s = len" "slot_bytes p1 s = take (nat len) data"
    "slotCount p \<le> slotCount p1"
    using F(5) by (auto split: if_splits)
  have lv: "live p1 s" using s pos by (simp add: live_def)
  have "\<forall>x\<in>set S. snd x \<le> 32767 \<and> nat (snd x) \<le> length (fst x)" using Cons.prems(2) by simp
  note IH = Cons.IH [OF F(1) this rest]
  have fr: "\<And>i. 0 \<le> i \<Longrightarrow> i < slotCount p1 \<Longrightarrow> live p1 i \<Longrightarrow>
      live q i \<and> slotLen q i = slotLen p1 i \<and> slot_bytes q i = slot_bytes p1 i"
    using IH by blast
  have sc: "slotCount p1 \<le> slotCount q" using IH by blast
  have a: "\<forall>i. 0 \<le> i \<and> i < slotCount p \<and> live p i \<longrightarrow>
        live q i \<and> slotLen q i = slotLen p i \<and> slot_bytes q i = slot_bytes p i"
  proof (intro allI impI)
    fix i assume i: "0 \<le> i \<and> i < slotCount p \<and> live p i"
    then have 1: "live p1 i \<and> slotLen p1 i = slotLen p i \<and> slot_bytes p1 i = slot_bytes p i"
      using F(2) by blast
    have "i < slotCount p1" using i s(5) by simp
    then show "live q i \<and> slotLen q i = slotLen p i \<and> slot_bytes q i = slot_bytes p i"
      using fr [of i] i 1 by simp
  qed
  have b: "\<forall>n<length (x # S). 0 \<le> ids ! n \<and> ids ! n < slotCount q \<and> live q (ids ! n) \<and>
        slotLen q (ids ! n) = snd ((x # S) ! n) \<and>
        slot_bytes q (ids ! n) = take (nat (snd ((x # S) ! n))) (fst ((x # S) ! n))"
  proof (intro allI impI)
    fix n assume n: "n < length (x # S)"
    show "0 \<le> ids ! n \<and> ids ! n < slotCount q \<and> live q (ids ! n) \<and>
        slotLen q (ids ! n) = snd ((x # S) ! n) \<and>
        slot_bytes q (ids ! n) = take (nat (snd ((x # S) ! n))) (fst ((x # S) ! n))"
    proof (cases n)
      case 0
      then show ?thesis using fr [OF s(1,2) lv] s sc by (simp add: ids x)
    next
      case (Suc m)
      then have "m < length S" using n by simp
      then show ?thesis using IH Suc by (simp add: ids)
    qed
  qed
  show ?case using IH s(5) a b ids by simp
qed


section \<open>Lemmas on scanning and deleting across pages\<close>

lemma div_succ:
  fixes c k :: int
  assumes "0 < k"
  shows "(c + 1) div k = c div k + (if (c + 1) mod k = 0 then 1 else 0)"
proof -
  define q r where "q = c div k" and "r = c mod k"
  have c: "c = k * q + r" and r: "0 \<le> r" "r < k" using assms by (simp_all add: q_def r_def)
  show ?thesis
  proof (cases "r + 1 = k")
    case True
    then have e: "c + 1 = k * (q + 1) + 0" using c by (simp add: algebra_simps)
    have "(c + 1) div k = q + 1" using assms by (intro int_div_pos_eq [OF e]) simp_all
    moreover have "(c + 1) mod k = 0" using assms by (intro int_mod_pos_eq [OF e]) simp_all
    ultimately show ?thesis by (simp add: q_def)
  next
    case False
    then have lt: "r + 1 < k" using r by simp
    have e: "c + 1 = k * q + (r + 1)" using c by simp
    have "(c + 1) div k = q" using r lt by (intro int_div_pos_eq [OF e]) simp_all
    moreover have "(c + 1) mod k = r + 1" using r lt by (intro int_mod_pos_eq [OF e]) simp_all
    ultimately show ?thesis using r by (simp add: q_def)
  qed
qed

lemma live_from_cases:
  "(live_from p i = [] \<and> (\<forall>k. i \<le> k \<and> k < slotCount p \<longrightarrow> \<not> live p k)) \<or>
   (\<exists>j. i \<le> j \<and> j < slotCount p \<and> live p j \<and> (\<forall>k. i \<le> k \<and> k < j \<longrightarrow> \<not> live p k) \<and>
        live_from p i = j # live_from p (j + 1))"
proof (induction "nat (slotCount p - i)" arbitrary: i)
  case 0
  then have "live_from p i = []" by (simp add: live_from_def)
  then show ?case using 0 by auto
next
  case (Suc n)
  then have lt: "i < slotCount p" by simp
  have u: "[i..slotCount p - 1] = i # [i + 1..slotCount p - 1]" using lt by (simp add: upto_rec1)
  show ?case
  proof (cases "live p i")
    case True
    then have "live_from p i = i # live_from p (i + 1)" by (simp add: live_from_def u)
    then show ?thesis using True lt by auto
  next
    case False
    then have e: "live_from p i = live_from p (i + 1)" by (simp add: live_from_def u)
    have "n = nat (slotCount p - (i + 1))" using Suc(2) by simp
    from Suc(1) [OF this] show ?thesis
    proof
      assume a: "live_from p (i + 1) = [] \<and> (\<forall>k. i + 1 \<le> k \<and> k < slotCount p \<longrightarrow> \<not> live p k)"
      have "\<not> live p k" if "i \<le> k \<and> k < slotCount p" for k
        using that a False by (cases "k = i") auto
      then show ?thesis using a e by simp
    next
      assume "\<exists>j. i + 1 \<le> j \<and> j < slotCount p \<and> live p j \<and>
        (\<forall>k. i + 1 \<le> k \<and> k < j \<longrightarrow> \<not> live p k) \<and> live_from p (i + 1) = j # live_from p (j + 1)"
      then obtain j where j: "i + 1 \<le> j" "j < slotCount p" "live p j"
        "\<forall>k. i + 1 \<le> k \<and> k < j \<longrightarrow> \<not> live p k" "live_from p (i + 1) = j # live_from p (j + 1)"
        by blast
      have "\<not> live p k" if "i \<le> k \<and> k < j" for k
        using that j(4) False by (cases "k = i") auto
      then show ?thesis using j e by (intro disjI2 exI [of _ j]) simp
    qed
  qed
qed

lemma live_from_cong:
  assumes "slotCount q = slotCount p" "\<forall>k. i \<le> k \<and> k < slotCount p \<longrightarrow> live q k = live p k"
  shows "live_from q i = live_from p i"
  unfolding live_from_def assms(1) using assms(2) by (intro filter_cong) auto

lemma live_from_0: "live_from p 0 = live_slots p"
  by (simp add: live_from_def live_slots_def)

lemma next_record_found:
  assumes d: "dir_ok p" and c: "- 1 \<le> c" "c + 1 \<le> j" "j < slotCount p" and l: "live p j"
    and n: "\<forall>k. c + 1 \<le> k \<and> k < j \<longrightarrow> \<not> live p k"
  shows "SP_GetNextRecord p (Some c) = Some (SP_OK, j, Some (slotOff p j, slotLen p j))"
proof -
  have len: "8 \<le> int (length p)" "8 + 4 * slotCount p \<le> int (length p)"
    using d by (auto simp: dir_ok_def)
  have sc: "slotCount p \<le> 32767" using get_short_range [of p 0] by (simp add: slotCount_def)
  have st: "(if c < 0 then 0 else to_short (c + 1)) = c + 1"
    using c sc by (auto simp: to_short_id)
  have "scan_loop p (slotCount p) (c + 1) = Some (Some j)"
    using c l n len by (intro scan_loop_first) auto
  moreover have "slot_offset p j = Some (slotOff p j)" "slot_length p j = Some (slotLen p j)"
    using c len by (auto intro!: slot_reads)
  moreover have "to_short j = j" using c sc by (intro to_short_id) auto
  ultimately show ?thesis
    unfolding SP_GetNextRecord_def using len by (simp add: hdr_reads st)
qed

lemma next_record_empty:
  assumes d: "dir_ok p" and c: "- 1 \<le> c" "c < slotCount p"
    and n: "\<forall>k. c + 1 \<le> k \<and> k < slotCount p \<longrightarrow> \<not> live p k"
  shows "SP_GetNextRecord p (Some c) = Some (SP_ERR_EMPTY, - 1, None)"
proof -
  have len: "8 \<le> int (length p)" "8 + 4 * slotCount p \<le> int (length p)"
    using d by (auto simp: dir_ok_def)
  have sc: "slotCount p \<le> 32767" using get_short_range [of p 0] by (simp add: slotCount_def)
  have st: "(if c < 0 then 0 else to_short (c + 1)) = c + 1"
    using c sc by (auto simp: to_short_id)
  have "scan_loop p (slotCount p) (c + 1) = Some None"
    using c n len by (intro scan_loop_none) auto
  then show ?thesis
    unfolding SP_GetNextRecord_def using len by (simp add: hdr_reads st)
qed

lemma scan_page_loop_count:
  assumes "dir_ok p" "- 1 \<le> c" "c < slotCount p"
  shows "scan_page_loop p c cnt = Some (cnt + int (length (live_from p (c + 1))))"
  using assms
proof (induction "length (live_from p (c + 1))" arbitrary: c cnt)
  case 0
  then have "live_from p (c + 1) = []" by simp
  with live_from_cases [of p "c + 1"]
  have n: "\<forall>k. c + 1 \<le> k \<and> k < slotCount p \<longrightarrow> \<not> live p k" by auto
  have "SP_GetNextRecord p (Some c) = Some (SP_ERR_EMPTY, - 1, None)"
    using 0(2,3,4) n by (rule next_record_empty)
  then show ?case using 0(1)
    by (subst scan_page_loop.simps) (simp add: SP_ERR_EMPTY_def SP_OK_def)
next
  case (Suc n)
  from live_from_cases [of p "c + 1"] Suc(2) obtain j where
    j: "c + 1 \<le> j" "j < slotCount p" "live p j" "\<forall>k. c + 1 \<le> k \<and> k < j \<longrightarrow> \<not> live p k"
    "live_from p (c + 1) = j # live_from p (j + 1)" by auto
  have g: "SP_GetNextRecord p (Some c) = Some (SP_OK, j, Some (slotOff p j, slotLen p j))"
    using Suc(3,4) j(1,2,3,4) by (rule next_record_found)
  have "n = length (live_from p (j + 1))" using Suc(2) j(5) by simp
  from Suc(1) [OF this Suc(3), of "cnt + 1"] j Suc(4)
  have "scan_page_loop p j (cnt + 1) = Some (cnt + 1 + int (length (live_from p (j + 1))))" by simp
  then show ?case using g j(5)
    by (subst scan_page_loop.simps) simp
qed


lemma live_from_split:
  assumes "i \<le> j" "j < slotCount q"
  shows "live_from q i = filter (live q) [i..j - 1] @ (if live q j then [j] else []) @ live_from q (j + 1)"
proof -
  have "[i..slotCount q - 1] = [i..j - 1] @ j # [j + 1..slotCount q - 1]"
    using assms by (intro upto_split3) auto
  then show ?thesis by (simp add: live_from_def)
qed

lemma delete_page_loop_spec:
  assumes "0 < k" "dir_ok p" "- 1 \<le> c" "c < slotCount p"
  defines "n \<equiv> int (length (live_from p (c + 1)))"
  shows "\<exists>p' dirty'. delete_page_loop k p c counter deleted dirty =
        Some (p', counter + n, deleted + ((counter + n) div k - counter div k), dirty') \<and>
      dir_ok p' \<and> slotCount p' = slotCount p \<and>
      (\<forall>i. 0 \<le> i \<and> i \<le> c \<longrightarrow> live p' i = live p i) \<and>
      int (length (live_from p' (c + 1))) = n - ((counter + n) div k - counter div k)"
  using assms(2,3,4) unfolding n_def
proof (induction "length (live_from p (c + 1))" arbitrary: p c counter deleted dirty)
  case 0
  then have e: "live_from p (c + 1) = []" by simp
  with live_from_cases [of p "c + 1"]
  have n: "\<forall>k. c + 1 \<le> k \<and> k < slotCount p \<longrightarrow> \<not> live p k" by auto
  have "SP_GetNextRecord p (Some c) = Some (SP_ERR_EMPTY, - 1, None)"
    using 0(2,3,4) n by (rule next_record_empty)
  then have "delete_page_loop k p c counter deleted dirty = Some (p, counter, deleted, dirty)"
    by (subst delete_page_loop.simps) (simp add: SP_ERR_EMPTY_def SP_OK_def)
  then show ?case using 0(2) e by simp
next
  case (Suc m)
  from live_from_cases [of p "c + 1"] Suc(2) obtain j where
    j: "c + 1 \<le> j" "j < slotCount p" "live p j" "\<forall>k. c + 1 \<le> k \<and> k < j \<longrightarrow> \<not> live p k"
    "live_from p (c + 1) = j # live_from p (j + 1)" by auto
  have j0: "0 \<le> j" "- 1 \<le> j" using j(1) Suc(4) by simp_all
  have g: "SP_GetNextRecord p (Some c) = Some (SP_OK, j, Some (slotOff p j, slotLen p j))"
    using Suc(3,4) j(1,2,3,4) by (rule next_record_found)
  have m: "m = length (live_from p (j + 1))" using Suc(2) j(5) by simp
  have len: "int (length (live_from p (c + 1))) = int m + 1" using Suc(2) by simp
  let ?hit = "(counter + 1) mod k = 0"
  have ds: "(counter + 1) div k = counter div k + (if ?hit then 1 else 0)"
    using assms(1) by (rule div_succ)
  define p1 where "p1 = (if ?hit then put_short (put_short (put_short p (SP_SLOT j + 2) (- 1))
      (SP_SLOT j) (freeListHead p)) 2 j else p)"
  have del: "?hit \<Longrightarrow> SP_DeleteRecord p j = Some (SP_OK, p1)"
    using delete_ok(1) [OF Suc(3) j0(1) j(2,3)] by (simp add: p1_def)
  have sc1: "slotCount p1 = slotCount p"
    using delete_ok(3) [OF Suc(3) j0(1) j(2,3)] by (simp add: p1_def)
  have d1: "dir_ok p1"
    using delete_ok(2,3) [OF Suc(3) j0(1) j(2,3)] Suc(3) by (auto simp: p1_def dir_ok_def)
  have lv1: "\<And>i. 0 \<le> i \<Longrightarrow> i \<noteq> j \<Longrightarrow> live p1 i = live p i"
    using delete_ok(8) [OF Suc(3) j0(1) j(2,3)] by (simp add: p1_def live_def)
  have lvj: "live p1 j = (\<not> ?hit)"
    using delete_ok(6) [OF Suc(3) j0(1) j(2,3)] j(3) by (simp add: p1_def live_def)
  have "live_from p1 (j + 1) = live_from p (j + 1)"
    using sc1 lv1 j0 by (intro live_from_cong) auto
  then have m1: "m = length (live_from p1 (j + 1))" using m by simp
  have jl: "j < slotCount p1" using j(2) sc1 by simp
  from Suc(1) [OF m1 d1 j0(2) jl, of "counter + 1" "if ?hit then deleted + 1 else deleted"
      "if ?hit then True else dirty"]
  obtain p' dirty' where
    r: "delete_page_loop k p1 j (counter + 1) (if ?hit then deleted + 1 else deleted)
          (if ?hit then True else dirty) =
        Some (p', counter + 1 + int m, (if ?hit then deleted + 1 else deleted) +
          ((counter + 1 + int m) div k - (counter + 1) div k), dirty')"
    and p': "dir_ok p'" "slotCount p' = slotCount p1"
      "\<forall>i. 0 \<le> i \<and> i \<le> j \<longrightarrow> live p' i = live p1 i"
      "int (length (live_from p' (j + 1))) = int m - ((counter + 1 + int m) div k - (counter + 1) div k)"
    using m1 by auto
  have run: "delete_page_loop k p c counter deleted dirty =
      delete_page_loop k p1 j (counter + 1) (if ?hit then deleted + 1 else deleted)
          (if ?hit then True else dirty)"
  proof (cases ?hit)
    case True
    then show ?thesis using g del assms(1)
      by (subst delete_page_loop.simps) simp
  next
    case False
    then have "p1 = p" by (simp add: p1_def)
    then show ?thesis using g False
      by (subst delete_page_loop.simps) simp
  qed
  have res: "delete_page_loop k p c counter deleted dirty =
      Some (p', counter + (int m + 1), deleted + ((counter + (int m + 1)) div k - counter div k), dirty')"
  proof -
    have a1: "counter + 1 + int m = counter + (int m + 1)" by simp
    show ?thesis unfolding run r a1 using ds by (cases ?hit) simp_all
  qed
  have fr: "\<forall>i. 0 \<le> i \<and> i \<le> c \<longrightarrow> live p' i = live p i"
    using p'(3) lv1 j(1) by auto
  have none: "filter (live p') [c + 1..j - 1] = []"
  proof -
    have "\<not> live p' i" if "i \<in> set [c + 1..j - 1]" for i
    proof -
      have i: "c + 1 \<le> i" "i < j" "0 \<le> i" using that Suc(4) by auto
      then have "live p' i = live p i" using p'(3) lv1 [of i] by auto
      then show ?thesis using j(4) i by simp
    qed
    then show ?thesis by (simp add: filter_empty_conv)
  qed
  have lj: "live p' j = (\<not> ?hit)" using p'(3) j0 lvj by simp
  have "live_from p' (c + 1) = filter (live p') [c + 1..j - 1] @ (if live p' j then [j] else []) @
      live_from p' (j + 1)"
    using j(1,2) p'(2) sc1 by (intro live_from_split) auto
  then have c1: "int (length (live_from p' (c + 1))) =
      (if ?hit then 0 else 1) + int (length (live_from p' (j + 1)))"
    using none lj by simp
  have cnt: "int (length (live_from p' (c + 1))) =
      (int m + 1) - ((counter + (int m + 1)) div k - counter div k)"
  proof -
    have a1: "counter + 1 + int m = counter + (int m + 1)" by simp
    show ?thesis using c1 p'(4) ds unfolding a1 by (cases ?hit) simp_all
  qed
  show ?case
    unfolding len using res p'(1) p'(2) sc1 fr cnt by (intro exI [of _ p'] exI [of _ dirty']) simp
qed


lemma scan_pages_spec:
  assumes "\<forall>p\<in>set file. dir_ok p"
  shows "scan_pages file cnt = Some (cnt + file_records file)"
  using assms
proof (induction "file" arbitrary: cnt)
  case Nil
  then show ?case by (simp add: file_records_def)
next
  case (Cons p pages)
  have d: "dir_ok p" using Cons.prems by simp
  then have c: "- 1 \<le> (- 1 :: int)" "- 1 < slotCount p" by (simp_all add: dir_ok_def)
  have "scan_page_loop p (- 1) cnt = Some (cnt + int (length (live_slots p)))"
    using scan_page_loop_count [OF d c, of cnt] by (simp add: live_from_0)
  moreover have "scan_pages pages (cnt + int (length (live_slots p))) =
      Some (cnt + int (length (live_slots p)) + file_records pages)"
    using Cons.prems by (intro Cons.IH) simp
  ultimately show ?case by (simp add: file_records_def)
qed

lemma delete_pages_spec:
  assumes "0 < k" "\<forall>p\<in>set file. dir_ok p"
  shows "\<exists>file'. delete_pages k file counter deleted =
        Some (file', counter + file_records file,
          deleted + ((counter + file_records file) div k - counter div k)) \<and>
      (\<forall>p\<in>set file'. dir_ok p) \<and>
      file_records file' = file_records file - ((counter + file_records file) div k - counter div k)"
  using assms(2)
proof (induction "file" arbitrary: counter deleted)
  case Nil
  then show ?case by (simp add: file_records_def)
next
  case (Cons p pages)
  have d: "dir_ok p" using Cons.prems by simp
  then have c: "- 1 \<le> (- 1 :: int)" "- 1 < slotCount p" by (simp_all add: dir_ok_def)
  define n where "n = int (length (live_slots p))"
  define d1 where "d1 = (counter + n) div k - counter div k"
  from delete_page_loop_spec [OF assms(1) d c, of counter deleted False]
  obtain p' dirty' where
    r: "delete_page_loop k p (- 1) counter deleted False = Some (p', counter + n, deleted + d1, dirty')"
    and p': "dir_ok p'" "int (length (live_slots p')) = n - d1"
    by (auto simp: live_from_0 n_def d1_def)
  define N where "N = file_records pages"
  define d2 where "d2 = (counter + n + N) div k - (counter + n) div k"
  have "\<forall>p\<in>set pages. dir_ok p" using Cons.prems by simp
  from Cons.IH [OF this, of "counter + n" "deleted + d1"]
  obtain file' where
    s: "delete_pages k pages (counter + n) (deleted + d1) =
        Some (file', counter + n + N, deleted + d1 + d2)"
    and f': "\<forall>p\<in>set file'. dir_ok p" "file_records file' = N - d2"
    by (auto simp: N_def d2_def)
  have fr: "file_records (p # pages) = n + N" by (simp add: file_records_def n_def N_def)
  have dd: "d1 + d2 = (counter + (n + N)) div k - counter div k"
    by (simp add: d1_def d2_def add.assoc)
  have "delete_pages k (p # pages) counter deleted =
      Some (p' # file', counter + (n + N), deleted + (d1 + d2))"
    using r s by (simp add: add.assoc)
  moreover have "file_records (p' # file') = n + N - (d1 + d2)"
    using p'(2) f'(2) by (simp add: file_records_def)
  ultimately show ?case
    unfolding fr dd [symmetric] using p'(1) f'(1) by (intro exI [of _ "p' # file'"]) simp
qed

lemma two_record_page_fields:
  "length two_record_page = 32" "slotCount two_record_page = 2"
  "slotLen two_record_page 0 = 4" "slotLen two_record_page 1 = 6"
  by (simp_all add: two_record_page_def slotCount_def slotLen_def get_short_def to_short_def
      SP_SLOT_def)


section \<open>Lemmas on the lines of the loader\<close>

lemma strip_eol_snoc:
  "strip_eol (xs @ [c]) = (if is_eol c then strip_eol xs else xs @ [c])"
  by (subst strip_eol.simps) (simp add: is_eol_def)

lemma strip_eol_dropWhile: "strip_eol line = rev (dropWhile is_eol (rev line))"
proof (induction line rule: rev_induct)
  case Nil
  show ?case by (subst strip_eol.simps) simp
next
  case (snoc c xs)
  show ?case
  proof (cases "is_eol c")
    case True
    have "strip_eol (xs @ [c]) = strip_eol xs" using True by (simp only: strip_eol_snoc if_True)
    also have "\<dots> = rev (dropWhile is_eol (rev xs))" by (rule snoc.IH)
    also have "\<dots> = rev (dropWhile is_eol (rev (xs @ [c])))" using True by simp
    finally show ?thesis .
  next
    case False
    have "strip_eol (xs @ [c]) = xs @ [c]" using False by (simp only: strip_eol_snoc if_False)
    also have "\<dots> = rev (dropWhile is_eol (rev (xs @ [c])))" using False by simp
    finally show ?thesis .
  qed
qed




lemma take_strlen: "take (strlen line) line = takeWhile (\<lambda>c. c \<noteq> CHR 0x00) line"
  unfolding strlen_def by (rule takeWhile_eq_take [symmetric])





section \<open>Scanning: the cursor after the last record\<close>

text \<open>
  C10. When no live slot exists at index \<open>cursor + 1\<close> or beyond, \<^verbatim>\<open>SP_GetNextRecord\<close>
  returns \<^verbatim>\<open>SP_ERR_EMPTY\<close> and stores the sentinel \<open>-1\<close> in the cursor; a following call
  with that cursor starts again at slot 0 and returns the first live slot of the page.
  The cursor is a \<open>short\<close> other than 32767 (whose successor is not a \<open>short\<close>), and the
  slot directory lies inside the buffer.
\<close>

theorem SP_GetNextRecord_exhausted_resets_cursor:
  assumes dir: "0 \<le> slotCount p" "8 + 4 * slotCount p \<le> int (length p)"
    and c: "c < 32767"
    and none: "\<forall>k. c + 1 \<le> k \<and> 0 \<le> k \<and> k < slotCount p \<longrightarrow> \<not> live p k"
  shows "SP_GetNextRecord p (Some c) = Some (SP_ERR_EMPTY, - 1, None) \<and>
         (\<forall>j. 0 \<le> j \<and> j < slotCount p \<and> live p j \<and> (\<forall>k. 0 \<le> k \<and> k < j \<longrightarrow> \<not> live p k) \<longrightarrow>
            SP_GetNextRecord p (Some (- 1)) = Some (SP_OK, j, Some (slotOff p j, slotLen p j)))"
proof (intro conjI allI impI)
  have len: "8 \<le> int (length p)" using dir by simp
  define start where "start = (if c < 0 then 0 else to_short (c + 1))"
  have s0: "0 \<le> start" "c + 1 \<le> start"
    using c by (auto simp: start_def to_short_id)
  have "scan_loop p (slotCount p) start = Some None"
    using s0 dir none by (intro scan_loop_none) auto
  then show "SP_GetNextRecord p (Some c) = Some (SP_ERR_EMPTY, - 1, None)"
    unfolding SP_GetNextRecord_def using len by (simp add: hdr_reads start_def)
next
  fix j assume j: "0 \<le> j \<and> j < slotCount p \<and> live p j \<and> (\<forall>k. 0 \<le> k \<and> k < j \<longrightarrow> \<not> live p k)"
  have len: "8 \<le> int (length p)" using dir by simp
  have "scan_loop p (slotCount p) 0 = Some (Some j)"
    using j dir by (intro scan_loop_first) auto
  moreover have "slot_offset p j = Some (slotOff p j)" "slot_length p j = Some (slotLen p j)"
    using j dir by (auto intro!: slot_reads)
  moreover have "to_short j = j"
    using j get_short_range [of p 0] by (intro to_short_id) (auto simp: slotCount_def)
  ultimately show "SP_GetNextRecord p (Some (- 1)) = Some (SP_OK, j, Some (slotOff p j, slotLen p j))"
    unfolding SP_GetNextRecord_def using len by (simp add: hdr_reads)
qed

lemma example_page_fields:
  "slotCount example_page = 1" "slotLen example_page 0 = 2" "slotOff example_page 0 = 14"
  "length example_page = 16" "freePtr example_page = 14" "freeListHead example_page = - 1"
  by (simp_all add: example_page_def slotCount_def slotLen_def slotOff_def freePtr_def
      freeListHead_def get_short_def to_short_def SP_SLOT_def)

theorem SP_GetNextRecord_exhausted_resets_cursor_witness:
  "SP_GetNextRecord example_page (Some 0) = Some (SP_ERR_EMPTY, - 1, None) \<and>
   SP_GetNextRecord example_page (Some (- 1)) = Some (SP_OK, 0, Some (14, 2))"
proof -
  have h: "SP_GetNextRecord example_page (Some 0) = Some (SP_ERR_EMPTY, - 1, None) \<and>
         (\<forall>j. 0 \<le> j \<and> j < slotCount example_page \<and> live example_page j \<and>
               (\<forall>k. 0 \<le> k \<and> k < j \<longrightarrow> \<not> live example_page k) \<longrightarrow>
            SP_GetNextRecord example_page (Some (- 1)) =
              Some (SP_OK, j, Some (slotOff example_page j, slotLen example_page j)))"
    by (rule SP_GetNextRecord_exhausted_resets_cursor) (auto simp add: example_page_fields)
  from h have "SP_GetNextRecord example_page (Some (- 1)) =
      Some (SP_OK, 0, Some (slotOff example_page 0, slotLen example_page 0))"
    by (elim conjE allE [of _ 0]) (simp add: example_page_fields live_def)
  with h show ?thesis by (simp add: example_page_fields)
qed

section \<open>The exit code of the index comparator\<close>

lemma parse_data_only:
  "parse_args env [''--data'', path] default_opts = Inr (default_opts\<lparr>dataPath := Some path\<rparr>)"
  by simp

text \<open>
  C3. The exit code of the index comparator when a build phase fails, where the
  specification asks for a nonzero code: with the arguments \<^verbatim>\<open>--data student.txt\<close>, a
  data set of three records and an \<^verbatim>\<open>AM_CreateIndex\<close> that fails, \<^verbatim>\<open>buildIndex\<close> returns
  \<open>-1\<close> for the first ordering, \<^verbatim>\<open>main\<close> jumps to \<^verbatim>\<open>cleanup\<close> and returns 0.
\<close>

theorem index_benchmark_build_failure_exits_0:
  "buildIndex failing_env (snprintf256 ''student_index'' ''_post'') 3 = - 1 \<and>
   index_benchmark_main failing_env [''index_benchmark'', ''--data'', ''student.txt''] = 0"
  by (simp add: index_benchmark_main_def buildIndex_def failing_env_def default_opts_def
      cleanup_def)

text \<open>The same on every path: once the data set is loaded and the queries are sampled,
  the exit code is 0 whatever the six phases return.\<close>

lemma index_benchmark_main_phases_exit_0:
  assumes "parse_args env (tl argv) default_opts = Inr opts" "dataPath opts = Some path"
    "env_loadRecords env path = (0, n)" "n \<noteq> 0" "env_copyRecords_ok env"
    "env_selectQueries_ok env"
  shows "index_benchmark_main env argv = 0"
  using assms by (simp add: index_benchmark_main_def cleanup_def Let_def)

section \<open>The loader's rule for skipping lines\<close>

section \<open>The lines the loader keeps\<close>




section \<open>Page invariant along call sequences\<close>

text \<open>C1. The slot directory and the record heap never overlap. From a page set up by
  \<open>SP_InitPage\<close> (page size between 8 and 32767, the range of the \<open>short\<close> header fields),
  every sequence of \<open>SP_InsertRecord\<close> and \<open>SP_DeleteRecord\<close> calls runs without leaving the
  page buffer, and after every prefix of it the header satisfies
  \<open>8 + slotCount * 4 \<le> freePtr\<close>: the end of the slot directory does not pass the start of
  the heap. The calls are arbitrary (any slot id for a delete, any length a \<open>short\<close> can hold
  for an insert, with at least that many bytes of data behind the pointer).\<close>

theorem slot_directory_below_freePtr:
  assumes "8 \<le> ps" "ps \<le> 32767" "int (length buf) = ps" "\<forall>c\<in>set calls. call_ok c"
  shows "\<exists>p0. SP_InitPage ps buf = Some p0 \<and>
     (\<forall>n \<le> length calls. \<exists>p sc fp. sp_run ps p0 (take n calls) = Some p \<and>
        hdr_slotCount p = Some sc \<and> hdr_freePtr p = Some fp \<and> 8 + sc * 4 \<le> fp)"
proof -
  from init_spec [OF assms(1,2,3)] obtain p0 where
    p0: "SP_InitPage ps buf = Some p0" "sp_inv ps p0" by blast
  have "\<exists>p sc fp. sp_run ps p0 (take n calls) = Some p \<and>
        hdr_slotCount p = Some sc \<and> hdr_freePtr p = Some fp \<and> 8 + sc * 4 \<le> fp" for n
  proof -
    have "\<forall>c\<in>set (take n calls). call_ok c" using assms(4) by (meson in_set_takeD)
    from run_inv [OF p0(2) this] obtain p where p: "sp_run ps p0 (take n calls) = Some p" "sp_inv ps p"
      by blast
    note I = sp_invD [OF p(2)]
    have "8 \<le> int (length p)" using I by simp
    then have "hdr_slotCount p = Some (slotCount p)" "hdr_freePtr p = Some (freePtr p)"
      by (simp_all add: hdr_reads)
    then show ?thesis using p(1) I(5) by simp
  qed
  then show ?thesis using p0(1) by blast
qed

theorem slot_directory_below_freePtr_witness:
  "\<exists>p0 p sc fp. SP_InitPage 32 (replicate 32 0) = Some p0 \<and>
     sp_run 32 p0 [Insert [1, 2, 3, 4] 4, Insert [11, 12, 13, 14, 15, 16] 6, Delete 0,
       Insert [21, 22, 23, 24, 25, 26, 27, 28] 8] = Some p \<and>
     hdr_slotCount p = Some sc \<and> hdr_freePtr p = Some fp \<and> 8 + sc * 4 \<le> fp"
proof -
  let ?calls = "[Insert [1, 2, 3, 4] 4, Insert [11, 12, 13, 14, 15, 16] 6, Delete 0,
       Insert [21, 22, 23, 24, 25, 26, 27, 28] 8]"
  have "\<exists>p0. SP_InitPage 32 (replicate 32 0) = Some p0 \<and>
     (\<forall>n \<le> length ?calls. \<exists>p sc fp. sp_run 32 p0 (take n ?calls) = Some p \<and>
        hdr_slotCount p = Some sc \<and> hdr_freePtr p = Some fp \<and> 8 + sc * 4 \<le> fp)"
    by (rule slot_directory_below_freePtr) simp_all
  then obtain p0 where p0: "SP_InitPage 32 (replicate 32 0) = Some p0"
    and a: "\<forall>n \<le> length ?calls. \<exists>p sc fp. sp_run 32 p0 (take n ?calls) = Some p \<and>
        hdr_slotCount p = Some sc \<and> hdr_freePtr p = Some fp \<and> 8 + sc * 4 \<le> fp" by blast
  from a [rule_format, of 4] p0 show ?thesis by simp
qed

section \<open>Compaction\<close>

text \<open>C7. Compaction is idempotent and touches only the offsets of live records. On a
  page satisfying the invariant, \<open>SP_CompactPage\<close> returns a page on which a second
  compaction changes nothing at all; the slot count and the head of the tombstone chain are
  unchanged, every slot keeps its length, a tombstone keeps its offset field (the chain
  link), and every live slot keeps its bytes.\<close>

theorem SP_CompactPage_idempotent:
  assumes "sp_inv ps p"
  shows "\<exists>p'. SP_CompactPage ps p = Some p' \<and> SP_CompactPage ps p' = Some p' \<and>
     slotCount p' = slotCount p \<and> freeListHead p' = freeListHead p \<and>
     (\<forall>i\<in>{0..<slotCount p}. slotLen p' i = slotLen p i \<and>
        (\<not> live p i \<longrightarrow> slotOff p' i = slotOff p i) \<and>
        (live p i \<longrightarrow> slot_bytes p' i = slot_bytes p i))"
proof -
  from compact_spec [OF assms] obtain p' where
    "SP_CompactPage ps p = Some p'" "SP_CompactPage ps p' = Some p'"
    "slotCount p' = slotCount p" "freeListHead p' = freeListHead p"
    "\<forall>i. 0 \<le> i \<and> i < slotCount p \<longrightarrow> slotLen p' i = slotLen p i"
    "\<forall>i. 0 \<le> i \<and> i < slotCount p \<and> \<not> live p i \<longrightarrow> slotOff p' i = slotOff p i"
    "\<forall>i. 0 \<le> i \<and> i < slotCount p \<and> live p i \<longrightarrow> slot_bytes p' i = slot_bytes p i"
    by blast
  then show ?thesis by (intro exI [of _ p']) simp
qed

theorem SP_CompactPage_idempotent_witness:
  "sp_inv 32 fragmented_page \<and> SP_CompactPage 32 fragmented_page = Some compacted_page \<and>
   SP_CompactPage 32 compacted_page = Some compacted_page \<and>
   slotLen compacted_page 1 = slotLen fragmented_page 1 \<and>
   slot_bytes compacted_page 1 = slot_bytes fragmented_page 1"
proof -
  from SP_CompactPage_idempotent [OF fragmented_page_inv] obtain p' where
    p': "SP_CompactPage 32 fragmented_page = Some p'" "SP_CompactPage 32 p' = Some p'"
    and r: "\<forall>i\<in>{0..<slotCount fragmented_page}. slotLen p' i = slotLen fragmented_page i \<and>
        (\<not> live fragmented_page i \<longrightarrow> slotOff p' i = slotOff fragmented_page i) \<and>
        (live fragmented_page i \<longrightarrow> slot_bytes p' i = slot_bytes fragmented_page i)"
    by blast
  have e: "p' = compacted_page" using p'(1) fragmented_page_compact by simp
  have "(1::int) \<in> {0..<slotCount fragmented_page}" by (simp add: fragmented_page_fields)
  with r have "slotLen p' 1 = slotLen fragmented_page 1 \<and>
      (live fragmented_page 1 \<longrightarrow> slot_bytes p' 1 = slot_bytes fragmented_page 1)" by blast
  moreover have "live fragmented_page 1" by (simp add: live_def fragmented_page_fields)
  ultimately show ?thesis using fragmented_page_inv p' e by simp
qed

section \<open>Insertion keeps the other records\<close>

text \<open>C9. A successful insert preserves every record that was live before it, also when
  the insert compacts the page. If \<open>SP_InsertRecord\<close> returns \<open>SP_OK\<close> on a page satisfying the
  invariant and \<open>SP_GetRecord\<close> found slot \<open>i\<close> with length \<open>n\<close> before, then afterwards
  \<open>SP_GetRecord\<close> finds slot \<open>i\<close> with the same length and the same bytes (the offset may
  differ).\<close>

theorem SP_InsertRecord_keeps_live_records:
  assumes inv: "sp_inv ps p" and len: "len \<le> 32767" "nat len \<le> length data"
    and ins: "SP_InsertRecord ps p data len = Some (SP_OK, slotId, p')"
    and get: "SP_GetRecord p i = Some (SP_OK, Some (off, n))"
  shows "\<exists>off' bytes. SP_GetRecord p' i = Some (SP_OK, Some (off', n)) \<and>
     record_bytes p (off, n) = Some bytes \<and> record_bytes p' (off', n) = Some bytes"
proof -
  have d: "dir_ok p" using inv by (rule sp_inv_dir_ok)
  from get have i: "0 \<le> i" "i < slotCount p" "live p i" "off = slotOff p i" "n = slotLen p i"
    using get_record_ok_iff [OF d, of i "Some (off, n)"] by auto
  have dd: "0 < len \<longrightarrow> nat len \<le> length data" using len(2) by simp
  note F = insert_facts [OF inv len(1) dd ins]
  have inv': "sp_inv ps p'" by (rule F(1))
  have sc: "slotCount p \<le> slotCount p'" using F(5) by auto
  have i': "i < slotCount p'" "live p' i" "slotLen p' i = n" "slot_bytes p' i = slot_bytes p i"
    using F(2) [OF i(1,2,3)] i sc by auto
  have "SP_GetRecord p' i = Some (SP_OK, Some (slotOff p' i, n))"
    using get_record_live [OF sp_inv_dir_ok [OF inv'] i(1) i'(1,2)] i'(3) by simp
  moreover have "record_bytes p (off, n) = Some (slot_bytes p i)"
    using record_bytes_slot [OF inv i(1,2,3)] i by simp
  moreover have "record_bytes p' (slotOff p' i, n) = Some (slot_bytes p i)"
    using record_bytes_slot [OF inv' i(1) i'(1,2)] i' by simp
  ultimately show ?thesis by blast
qed

theorem SP_InsertRecord_keeps_live_records_witness:
  "\<exists>slotId p' off' bytes.
     SP_InsertRecord 32 fragmented_page [21, 22, 23, 24, 25, 26, 27, 28] 8 = Some (SP_OK, slotId, p') \<and>
     SP_GetRecord fragmented_page 1 = Some (SP_OK, Some (22, 6)) \<and>
     SP_GetRecord p' 1 = Some (SP_OK, Some (off', 6)) \<and>
     record_bytes fragmented_page (22, 6) = Some bytes \<and> record_bytes p' (off', 6) = Some bytes"
proof -
  let ?d = "[21, 22, 23, 24, 25, 26, 27, 28] :: byte list"
  have l: "(8::int) \<le> 32767" "nat 8 \<le> length ?d" "0 < (8::int) \<longrightarrow> nat 8 \<le> length ?d" by simp_all
  have lb: "live_bytes fragmented_page = 6"
    by (simp add: live_bytes_def live_slots_def fragmented_page_fields upto.simps live_def)
  from insert_spec [OF fragmented_page_inv l(1) l(3)] obtain rc sid p' where
    r: "SP_InsertRecord 32 fragmented_page ?d 8 = Some (rc, sid, p')"
    and ok: "rc = SP_OK \<longleftrightarrow> 0 < (8::int) \<and> 8 + (if freeListHead fragmented_page = - 1 then 4 else 0)
        \<le> 32 - live_bytes fragmented_page - (8 + 4 * slotCount fragmented_page)"
    by blast
  have "rc = SP_OK" using ok by (simp add: lb fragmented_page_fields)
  then have ins: "SP_InsertRecord 32 fragmented_page ?d 8 = Some (SP_OK, sid, p')" using r by simp
  have get: "SP_GetRecord fragmented_page 1 = Some (SP_OK, Some (22, 6))" by code_simp
  from SP_InsertRecord_keeps_live_records [OF fragmented_page_inv l(1,2) ins get] ins get
  show ?thesis by blast
qed
section \<open>Tombstone reuse\<close>

text \<open>C6. Insert, delete, insert of the same length keeps the slot count. On a page
  satisfying the invariant, if \<open>SP_InsertRecord\<close> of length \<open>L\<close> returns \<open>SP_OK\<close> with slot id
  \<open>s\<close>, then \<open>SP_DeleteRecord\<close> of \<open>s\<close> succeeds, a second \<open>SP_InsertRecord\<close> of length \<open>L\<close>
  succeeds as well and returns the same slot id \<open>s\<close> (the head of the tombstone chain), and
  the slot count read from the header is the one after the first insertion.\<close>

theorem SP_InsertRecord_reuses_tombstone:
  assumes inv: "sp_inv ps p" and L: "L \<le> 32767" "nat L \<le> length d1" "nat L \<le> length d2"
    and ins: "SP_InsertRecord ps p d1 L = Some (SP_OK, Some s, p1)"
  shows "\<exists>p2 p3 sc. SP_DeleteRecord p1 s = Some (SP_OK, p2) \<and>
     SP_InsertRecord ps p2 d2 L = Some (SP_OK, Some s, p3) \<and>
     hdr_slotCount p1 = Some sc \<and> hdr_slotCount p3 = Some sc"
proof -
  have dd: "0 < L \<longrightarrow> nat L \<le> length d1" "0 < L \<longrightarrow> nat L \<le> length d2" using L by simp_all
  note F = insert_facts [OF inv L(1) dd(1) ins]
  have pos: "0 < L" using F(4) by simp
  have inv1: "sp_inv ps p1" by (rule F(1))
  have s: "0 \<le> s" "s < slotCount p1" "slotLen p1 s = L" using F(5) by auto
  have lv: "live p1 s" using s pos by (simp add: live_def)
  have d1: "dir_ok p1" using inv1 by (rule sp_inv_dir_ok)
  define p2 where "p2 = put_short (put_short (put_short p1 (SP_SLOT s + 2) (- 1)) (SP_SLOT s)
    (freeListHead p1)) 2 s"
  note D = delete_ok [OF d1 s(1,2) lv, folded p2_def]
  have inv2: "sp_inv ps p2" using delete_inv [OF inv1 D(1)] .
  have nl: "\<not> live p2 s" using D(6) by (simp add: live_def)
  have "live_bytes p2 = live_bytes p1 - (if live p1 s then slotLen p1 s else 0) +
      (if live p2 s then slotLen p2 s else 0)"
    using D(8) s by (intro live_bytes_change) (auto simp: D(3))
  then have lb: "live_bytes p2 = live_bytes p1 - L" using lv nl s(3) by simp
  have pb: "live_bytes p1 \<le> ps - freePtr p1" using inv1 by (rule packing_bound)
  note I1 = sp_invD [OF inv1]
  from insert_spec [OF inv2 L(1) dd(2)] obtain rc sid p3 where
    r: "SP_InsertRecord ps p2 d2 L = Some (rc, sid, p3)" by blast
  note G = insert_facts [OF inv2 L(1) dd(2) r]
  have fl: "freeListHead p2 \<noteq> - 1" using D(5) s(1) by simp
  have "rc = SP_OK" using G(4) fl pos lb pb I1(5) D(3) by simp
  then have ok: "rc = SP_OK" "sid = Some s" "slotCount p3 = slotCount p1"
    using G(5) fl D(5) D(3) by simp_all
  have "8 \<le> int (length p1)" using I1 by simp
  then have h1: "hdr_slotCount p1 = Some (slotCount p1)" by (simp add: hdr_reads)
  have "8 \<le> int (length p3)" using sp_invD [OF G(1)] by simp
  then have h3: "hdr_slotCount p3 = Some (slotCount p1)" by (simp add: hdr_reads ok(3))
  show ?thesis using D(1) r ok h1 h3 by blast
qed

theorem SP_InsertRecord_reuses_tombstone_witness:
  "\<exists>p0 p1 p2 p3. SP_InitPage 32 (replicate 32 0) = Some p0 \<and>
     SP_InsertRecord 32 p0 [1, 2, 3, 4] 4 = Some (SP_OK, Some 0, p1) \<and>
     SP_DeleteRecord p1 0 = Some (SP_OK, p2) \<and>
     SP_InsertRecord 32 p2 [5, 6, 7, 8] 4 = Some (SP_OK, Some 0, p3) \<and>
     hdr_slotCount p1 = Some 1 \<and> hdr_slotCount p3 = Some 1"
proof -
  let ?d = "[1, 2, 3, 4] :: byte list"
  let ?e = "[5, 6, 7, 8] :: byte list"
  have b: "(8::int) \<le> 32" "(32::int) \<le> 32767" "int (length (replicate 32 (0::byte))) = 32" by simp_all
  from init_spec [OF b] obtain p0 where p0: "SP_InitPage 32 (replicate 32 0) = Some p0"
    "sp_inv 32 p0" "slotCount p0 = 0" "freeListHead p0 = - 1" "live_bytes p0 = 0" by blast
  have l: "(4::int) \<le> 32767" "nat 4 \<le> length ?d" "nat 4 \<le> length ?e"
    "0 < (4::int) \<longrightarrow> nat 4 \<le> length ?d" by simp_all
  from insert_spec [OF p0(2) l(1) l(4)] obtain rc sid p1 where
    r: "SP_InsertRecord 32 p0 ?d 4 = Some (rc, sid, p1)" by blast
  note F = insert_facts [OF p0(2) l(1) l(4) r]
  have ok: "rc = SP_OK" using F(4) p0 by simp
  then have sid: "sid = Some 0" "slotCount p1 = 1" using F(5) p0 by simp_all
  have ins: "SP_InsertRecord 32 p0 ?d 4 = Some (SP_OK, Some 0, p1)" using r ok sid by simp
  have "8 \<le> int (length p1)" using sp_invD [OF F(1)] by simp
  then have h1: "hdr_slotCount p1 = Some 1" by (simp add: hdr_reads sid)
  from SP_InsertRecord_reuses_tombstone [OF p0(2) l(1,2,3) ins] h1 p0(1) ins
  show ?thesis by auto
qed

section \<open>Round trip\<close>

text \<open>C2. Insert and get round trip. Starting from \<open>SP_InitPage\<close>, if every element of a
  list of (bytes, length) pairs is inserted with \<open>SP_InsertRecord\<close> returning \<open>SP_OK\<close> and a slot
  id, then on the final page \<open>SP_GetRecord\<close> of the \<open>n\<close>-th returned id succeeds with the \<open>n\<close>-th
  length, and the bytes at the returned offset are the first \<open>length\<close> bytes that were
  passed in, whatever was inserted afterwards.\<close>

theorem insert_get_round_trip:
  assumes "8 \<le> ps" "ps \<le> 32767" "int (length buf) = ps"
    and "\<forall>x\<in>set S. snd x \<le> 32767 \<and> nat (snd x) \<le> length (fst x)"
    and "SP_InitPage ps buf = Some p0" "insert_all ps p0 S = Some (p, ids)"
  shows "length ids = length S \<and>
    (\<forall>n<length S. \<exists>off. SP_GetRecord p (ids ! n) = Some (SP_OK, Some (off, snd (S ! n))) \<and>
       record_bytes p (off, snd (S ! n)) = Some (take (nat (snd (S ! n))) (fst (S ! n))))"
proof -
  have inv0: "sp_inv ps p0" using init_spec [OF assms(1,2,3)] assms(5) by auto
  note R = insert_all_spec [OF inv0 assms(4,6)]
  have inv: "sp_inv ps p" using R by blast
  have "\<exists>off. SP_GetRecord p (ids ! n) = Some (SP_OK, Some (off, snd (S ! n))) \<and>
       record_bytes p (off, snd (S ! n)) = Some (take (nat (snd (S ! n))) (fst (S ! n)))"
    if n: "n < length S" for n
  proof -
    have f: "0 \<le> ids ! n" "ids ! n < slotCount p" "live p (ids ! n)"
      "slotLen p (ids ! n) = snd (S ! n)"
      "slot_bytes p (ids ! n) = take (nat (snd (S ! n))) (fst (S ! n))"
      using R n by blast+
    have "SP_GetRecord p (ids ! n) = Some (SP_OK, Some (slotOff p (ids ! n), snd (S ! n)))"
      using get_record_live [OF sp_inv_dir_ok [OF inv] f(1,2,3)] f(4) by simp
    moreover have "record_bytes p (slotOff p (ids ! n), snd (S ! n)) =
        Some (take (nat (snd (S ! n))) (fst (S ! n)))"
      using record_bytes_slot [OF inv f(1,2,3)] f(4,5) by simp
    ultimately show ?thesis by blast
  qed
  then show ?thesis using R by blast
qed

theorem insert_get_round_trip_witness:
  "SP_InitPage 32 (replicate 32 0) = Some empty_page \<and>
   insert_all 32 empty_page [([1, 2, 3, 4], 4), ([11, 12, 13, 14, 15, 16, 17], 6)] =
     Some (two_record_page, [0, 1]) \<and>
   SP_GetRecord two_record_page 0 = Some (SP_OK, Some (28, 4)) \<and>
   record_bytes two_record_page (28, 4) = Some [1, 2, 3, 4] \<and>
   SP_GetRecord two_record_page 1 = Some (SP_OK, Some (22, 6)) \<and>
   record_bytes two_record_page (22, 6) = Some [11, 12, 13, 14, 15, 16]"
proof -
  let ?S = "[([1, 2, 3, 4], 4), ([11, 12, 13, 14, 15, 16, 17], 6)] :: (byte list \<times> int) list"
  have i: "SP_InitPage 32 (replicate 32 0) = Some empty_page" by code_simp
  have a: "insert_all 32 empty_page ?S = Some (two_record_page, [0, 1])" by code_simp
  have g: "SP_GetRecord two_record_page 0 = Some (SP_OK, Some (28, 4))"
    "SP_GetRecord two_record_page 1 = Some (SP_OK, Some (22, 6))" by code_simp+
  have b: "(8::int) \<le> 32" "(32::int) \<le> 32767" "int (length (replicate 32 (0::byte))) = 32"
    "\<forall>x\<in>set ?S. snd x \<le> 32767 \<and> nat (snd x) \<le> length (fst x)" by simp_all
  note R = insert_get_round_trip [OF b i a, THEN conjunct2, rule_format]
  from R [of 0] g(1) have "record_bytes two_record_page (28, 4) = Some [1, 2, 3, 4]" by simp
  moreover from R [of 1] g(2)
  have "record_bytes two_record_page (22, 6) = Some [11, 12, 13, 14, 15, 16]" by simp
  ultimately show ?thesis using i a g by simp
qed
section \<open>Deleting every k-th record\<close>

text \<open>C5. The deletion pass deletes every \<open>k\<close>-th record in scan order. For a step
  \<open>k > 0\<close> and a file whose pages have their slot directory inside the buffer, holding
  \<open>N\<close> live records in all (which is what \<open>scanCount\<close> returns), \<open>deleteEvery\<close> terminates and
  returns \<open>N div k\<close>, the counter running on from page to page, and \<open>scanCount\<close> on the file
  it leaves returns \<open>N - N div k\<close>. The counters are \<open>long\<close> in the source and unbounded
  here.\<close>

theorem deleteEvery_deletes_every_kth:
  assumes "0 < k" "\<forall>p\<in>set file. dir_ok p"
  shows "\<exists>file'. scanCount file = Some (file_records file) \<and>
     deleteEvery file k = Some (file', file_records file div k) \<and>
     scanCount file' = Some (file_records file - file_records file div k)"
proof -
  from delete_pages_spec [OF assms, of 0 0] obtain file' where
    r: "delete_pages k file 0 0 = Some (file', file_records file, file_records file div k)"
    and f': "\<forall>p\<in>set file'. dir_ok p" "file_records file' = file_records file - file_records file div k"
    by auto
  have "deleteEvery file k = Some (file', file_records file div k)"
    using r by (simp add: deleteEvery_def)
  moreover have "scanCount file' = Some (file_records file - file_records file div k)"
    using scan_pages_spec [OF f'(1), of 0] f'(2) by (simp add: scanCount_def)
  moreover have "scanCount file = Some (file_records file)"
    using scan_pages_spec [OF assms(2), of 0] by (simp add: scanCount_def)
  ultimately show ?thesis by blast
qed

theorem deleteEvery_deletes_every_kth_witness:
  "\<exists>file'. scanCount [two_record_page, fragmented_page] = Some 3 \<and>
     deleteEvery [two_record_page, fragmented_page] 2 = Some (file', 1) \<and>
     scanCount file' = Some 2"
proof -
  let ?file = "[two_record_page, fragmented_page]"
  have d: "\<forall>p\<in>set ?file. dir_ok p"
    by (simp add: dir_ok_def two_record_page_fields fragmented_page_fields)
  have u: "[0..1] = [0, 1::int]" by (simp add: upto.simps)
  have n: "file_records ?file = 3"
    by (simp add: file_records_def live_slots_def live_def two_record_page_fields
        fragmented_page_fields u)
  have k: "(0::int) < 2" by simp
  from deleteEvery_deletes_every_kth [OF k d] show ?thesis unfolding n by simp
qed

section \<open>The loader's retry on a fresh page\<close>

lemma fresh_page_insert:
  assumes "8 \<le> ps" "ps \<le> 32767" "int (length buf) = ps"
    and "len \<le> 32767" "0 < len \<longrightarrow> nat len \<le> length data"
  shows "\<exists>p0 rc sid p'. SP_InitPage ps buf = Some p0 \<and> sp_inv ps p0 \<and>
     SP_InsertRecord ps p0 data len = Some (rc, sid, p') \<and> sp_inv ps p' \<and>
     (rc = SP_OK \<longleftrightarrow> 0 < len \<and> len + 12 \<le> ps) \<and> (rc = SP_OK \<or> rc = SP_ERR_NOSPACE)"
proof -
  from init_spec [OF assms(1,2,3)] obtain p0 where p0: "SP_InitPage ps buf = Some p0"
    "sp_inv ps p0" "slotCount p0 = 0" "freeListHead p0 = - 1" "live_bytes p0 = 0" by blast
  from insert_spec [OF p0(2) assms(4,5)] obtain rc sid p' where
    r: "SP_InsertRecord ps p0 data len = Some (rc, sid, p')" by blast
  note F = insert_facts [OF p0(2) assms(4,5) r]
  have "rc = SP_OK \<longleftrightarrow> 0 < len \<and> len + 12 \<le> ps" using F(4) p0 by auto
  then show ?thesis using p0 r F(1,3) by blast
qed

lemma accepted_line:
  assumes "loader_line line = InsertLine l"
  shows "l = strip_eol (take (strlen line) line)" "0 < length l" "length l < 32760" "isdigit (l ! 0)"
proof -
  define s where "s = strip_eol (take (strlen line) line)"
  have a: "(if length s = 0 then Skip else if \<not> isdigit (s ! 0) then Skip
      else if length s \<ge> 32760 then TooLong else InsertLine s) = InsertLine l"
    using assms unfolding loader_line_def Let_def s_def .
  have 1: "length s \<noteq> 0" using a by (cases "length s = 0") simp_all
  have 2: "isdigit (s ! 0)" using a 1 by (cases "isdigit (s ! 0)") simp_all
  have 3: "\<not> length s \<ge> 32760" using a 1 2 by (cases "length s \<ge> 32760") simp_all
  have 4: "l = s" using a 1 2 3 by simp
  show "l = strip_eol (take (strlen line) line)" "0 < length l" "length l < 32760" "isdigit (l ! 0)"
    using 1 2 3 4 by (simp_all add: s_def)
qed

lemma insertRecord_spec:
  assumes ps: "8 \<le> ps" "ps \<le> 32767" and bufs: "int (length buf1) = ps" "int (length buf2) = ps"
    and st: "store_ok ps store file"
    and len: "0 < len" "len + 12 \<le> ps" "nat len \<le> length data"
  shows "\<exists>store' file'. insertRecord ps buf1 buf2 store file data len = Some (SP_OK, store', file') \<and>
     store_ok ps store' file' \<and> recordCount store' = recordCount store + 1"
proof -
  have l: "len \<le> 32767" "0 < len \<longrightarrow> nat len \<le> length data" using ps len by simp_all
  show ?thesis
  proof (cases "lastPage store < 0")
    case True
    from fresh_page_insert [OF ps bufs(1) l] len obtain p0 sid p' where
      a: "SP_InitPage ps buf1 = Some p0" "SP_InsertRecord ps p0 data len = Some (SP_OK, sid, p')"
      "sp_inv ps p'" by blast
    let ?store = "store\<lparr>lastPage := int (length file), pageCount := pageCount store + 1,
        recordCount := recordCount store + 1\<rparr>"
    let ?file = "(file @ [buf1])[length file := p']"
    have "insertRecord ps buf1 buf2 store file data len = Some (SP_OK, ?store, ?file)"
      using True a by (simp add: insertRecord_def PF_AllocPage_def pf_update_def)
    moreover have "store_ok ps ?store ?file" using a(3) by (simp add: store_ok_def)
    ultimately show ?thesis by (intro exI [of _ ?store] exI [of _ ?file]) simp
  next
    case False
    then have cur: "0 \<le> lastPage store" "lastPage store < int (length file)"
      "sp_inv ps (file ! nat (lastPage store))" using st by (auto simp: store_ok_def)
    let ?n = "nat (lastPage store)"
    have g: "PF_GetThisPage file (lastPage store) = Some (file ! ?n)"
      using cur by (simp add: PF_GetThisPage_def)
    from insert_spec [OF cur(3) l] obtain rc sid p1 where
      r: "SP_InsertRecord ps (file ! ?n) data len = Some (rc, sid, p1)" and inv1: "sp_inv ps p1"
      by blast
    show ?thesis
    proof (cases "rc = SP_OK")
      case True
      let ?store = "store\<lparr>recordCount := recordCount store + 1\<rparr>"
      let ?file = "file[?n := p1]"
      have "insertRecord ps buf1 buf2 store file data len = Some (SP_OK, ?store, ?file)"
        using False g r True by (simp add: insertRecord_def pf_update_def Let_def)
      moreover have "store_ok ps ?store ?file" using cur inv1 by (simp add: store_ok_def)
      ultimately show ?thesis by (intro exI [of _ ?store] exI [of _ ?file]) simp
    next
      case no: False
      from fresh_page_insert [OF ps bufs(2) l] len obtain p0 sid2 p3 where
        a: "SP_InitPage ps buf2 = Some p0" "SP_InsertRecord ps p0 data len = Some (SP_OK, sid2, p3)"
        "sp_inv ps p3" by blast
      let ?store = "store\<lparr>pageCount := pageCount store + 1, lastPage := int (length file),
        recordCount := recordCount store + 1\<rparr>"
      let ?file = "(file[?n := p1] @ [buf2])[length file := p3]"
      have "insertRecord ps buf1 buf2 store file data len = Some (SP_OK, ?store, ?file)"
        using False g r no a by (simp add: insertRecord_def PF_AllocPage_def pf_update_def Let_def)
      moreover have "store_ok ps ?store ?file" using a(3) by (simp add: store_ok_def nth_append)
      ultimately show ?thesis by (intro exI [of _ ?store] exI [of _ ?file]) simp
    qed
  qed
qed

lemma too_long_line:
  assumes "loader_line line = TooLong"
  shows "32760 \<le> length (strip_eol (take (strlen line) line))"
proof -
  define s where "s = strip_eol (take (strlen line) line)"
  have a: "(if length s = 0 then Skip else if \<not> isdigit (s ! 0) then Skip
      else if length s \<ge> 32760 then TooLong else InsertLine s) = TooLong"
    using assms unfolding loader_line_def Let_def s_def .
  have 1: "length s \<noteq> 0" using a by (cases "length s = 0") simp_all
  have 2: "isdigit (s ! 0)" using a 1 by (cases "isdigit (s ! 0)") simp_all
  have "32760 \<le> length s" using a 1 2 by (cases "32760 \<le> length s") simp_all
  then show ?thesis by (simp only: s_def)
qed

lemma load_loop_spec:
  assumes ps: "8 \<le> ps" "ps \<le> 32767"
    and bufs: "\<forall>n. int (length (fst (bufs n))) = ps \<and> int (length (snd (bufs n))) = ps"
    and st: "store_ok ps store file"
    and fit: "\<forall>line\<in>set lines. int (length (strip_eol (take (strlen line) line))) + 12 \<le> ps"
  shows "\<exists>store' file'. load_loop ps bufs n store file tot lines =
       Some (Inr (store', file',
         tot + int (length (filter (\<lambda>line. loader_line line \<noteq> Skip) lines)))) \<and>
     store_ok ps store' file'"
  using st fit
proof (induction lines arbitrary: n store "file" tot)
  case Nil
  then show ?case by simp
next
  case (Cons line lines)
  have rest: "\<forall>line\<in>set lines. int (length (strip_eol (take (strlen line) line))) + 12 \<le> ps" using Cons.prems(2) by simp
  have here: "int (length (strip_eol (take (strlen line) line))) + 12 \<le> ps" using Cons.prems(2) by simp
  show ?case
  proof (cases "loader_line line")
    case Skip
    from Cons.IH [OF Cons.prems(1) rest, of "Suc n" tot] show ?thesis using Skip by simp
  next
    case TooLong
    then have "32760 \<le> length (strip_eol (take (strlen line) line))" by (rule too_long_line)
    then show ?thesis using here ps by simp
  next
    case (InsertLine l)
    note A = accepted_line [OF InsertLine]
    define len where "len = int (length l)"
    have ts: "to_short (int (length l)) = len" using A(3) by (simp add: len_def to_short_id)
    have len: "0 < len" "len + 12 \<le> ps" "nat len \<le> length (line_bytes l)"
      using A(1,2) here by (simp_all add: len_def line_bytes_def)
    have b: "int (length (fst (bufs n))) = ps" "int (length (snd (bufs n))) = ps" using bufs by simp_all
    from insertRecord_spec [OF ps b Cons.prems(1) len] obtain store1 file1 where
      r: "insertRecord ps (fst (bufs n)) (snd (bufs n)) store file (line_bytes l) len =
          Some (SP_OK, store1, file1)" and st1: "store_ok ps store1 file1" by blast
    from Cons.IH [OF st1 rest, of "Suc n" "tot + 1"] show ?thesis
      using InsertLine r by (simp add: ts add.assoc)
  qed
qed

lemma two_record_page_inv: "sp_inv 32 two_record_page"
proof -
  let ?S = "[([1, 2, 3, 4], 4), ([11, 12, 13, 14, 15, 16, 17], 6)] :: (byte list \<times> int) list"
  have i: "SP_InitPage 32 (replicate 32 0) = Some empty_page" by code_simp
  have a: "insert_all 32 empty_page ?S = Some (two_record_page, [0, 1])" by code_simp
  have b: "(8::int) \<le> 32" "(32::int) \<le> 32767" "int (length (replicate 32 (0::byte))) = 32"
    "\<forall>x\<in>set ?S. snd x \<le> 32767 \<and> nat (snd x) \<le> length (fst x)" by simp_all
  have "sp_inv 32 empty_page" using init_spec [OF b(1,2,3)] i by auto
  from insert_all_spec [OF this b(4) a] show ?thesis by blast
qed

lemma live_bytes_nonneg: "0 \<le> live_bytes p"
  unfolding live_bytes_sum by (rule sum_nonneg) (simp add: live_def)

lemma insert_too_long:
  assumes inv: "sp_inv ps p" and len: "len \<le> 32767" "ps < len + 12" "nat len \<le> length data"
  shows "\<exists>sid p'. SP_InsertRecord ps p data len = Some (SP_ERR_NOSPACE, sid, p') \<and> sp_inv ps p'"
proof -
  have l: "0 < len \<longrightarrow> nat len \<le> length data" using len by simp
  from insert_spec [OF inv len(1) l] obtain rc sid p' where
    r: "SP_InsertRecord ps p data len = Some (rc, sid, p')" by blast
  note F = insert_facts [OF inv len(1) l r]
  note I = sp_invD [OF inv]
  from I(9) obtain xs where xs: "is_chain p (freeListHead p) xs" by blast
  have sc: "freeListHead p \<noteq> - 1 \<longrightarrow> 1 \<le> slotCount p"
    using xs by (cases xs) auto
  have "\<not> (len + (if freeListHead p = - 1 then 4 else 0) \<le> ps - live_bytes p - (8 + 4 * slotCount p))"
    using len(2) live_bytes_nonneg [of p] I(4) sc by (auto split: if_splits)
  then have "rc \<noteq> SP_OK" using F(4) by simp
  then have "rc = SP_ERR_NOSPACE" using F(3) by simp
  then show ?thesis using r F(1) by blast
qed

lemma insertRecord_too_long:
  assumes ps: "8 \<le> ps" "ps \<le> 32767" and bufs: "int (length buf1) = ps" "int (length buf2) = ps"
    and st: "store_ok ps store file"
    and len: "len \<le> 32767" "ps < len + 12" "nat len \<le> length data"
  shows "\<exists>store' file'. insertRecord ps buf1 buf2 store file data len =
     Some (SP_ERR_NOSPACE, store', file')"
proof -
  have l: "0 < len \<longrightarrow> nat len \<le> length data" using len by simp
  have no: "SP_ERR_NOSPACE \<noteq> SP_OK" by (simp add: SP_ERR_NOSPACE_def SP_OK_def)
  from fresh_page_insert [OF ps bufs(2) len(1) l] obtain q0 where
    q0: "SP_InitPage ps buf2 = Some q0" "sp_inv ps q0" by blast
  from insert_too_long [OF q0(2) len] obtain sid2 q' where
    b: "SP_InsertRecord ps q0 data len = Some (SP_ERR_NOSPACE, sid2, q')" by blast
  show ?thesis
  proof (cases "lastPage store < 0")
    case True
    from fresh_page_insert [OF ps bufs(1) len(1) l] obtain p0 where
      p0: "SP_InitPage ps buf1 = Some p0" "sp_inv ps p0" by blast
    from insert_too_long [OF p0(2) len] obtain sid p' where
      a: "SP_InsertRecord ps p0 data len = Some (SP_ERR_NOSPACE, sid, p')" by blast
    show ?thesis using True p0(1) a q0(1) b no
      by (simp add: insertRecord_def PF_AllocPage_def pf_update_def Let_def)
  next
    case False
    then have cur: "0 \<le> lastPage store" "lastPage store < int (length file)"
      "sp_inv ps (file ! nat (lastPage store))" using st by (auto simp: store_ok_def)
    have g: "PF_GetThisPage file (lastPage store) = Some (file ! nat (lastPage store))"
      using cur by (simp add: PF_GetThisPage_def)
    from insert_too_long [OF cur(3) len] obtain sid p' where
      a: "SP_InsertRecord ps (file ! nat (lastPage store)) data len = Some (SP_ERR_NOSPACE, sid, p')"
      by blast
    show ?thesis using False g a q0(1) b no
      by (simp add: insertRecord_def PF_AllocPage_def pf_update_def Let_def)
  qed
qed

lemma load_loop_too_long:
  assumes ps: "8 \<le> ps" "ps \<le> 32767"
    and bufs: "int (length (fst (bufs n))) = ps" "int (length (snd (bufs n))) = ps"
    and st: "store_ok ps store file"
    and acc: "loader_line line = InsertLine l" and long: "ps < int (length l) + 12"
  shows "load_loop ps bufs n store file tot (line # lines) = Some (Inl 1)"
proof -
  note A = accepted_line [OF acc]
  define len where "len = int (length l)"
  have ts: "to_short (int (length l)) = len" using A(3) by (simp add: len_def to_short_id)
  have len: "len \<le> 32767" "ps < len + 12" "nat len \<le> length (line_bytes l)"
    using A(3) long by (simp_all add: len_def line_bytes_def)
  from insertRecord_too_long [OF ps bufs st len] obtain store' file' where
    "insertRecord ps (fst (bufs n)) (snd (bufs n)) store file (line_bytes l) len =
      Some (SP_ERR_NOSPACE, store', file')" by blast
  then show ?thesis using acc
    by (simp add: ts SP_ERR_NOSPACE_def SP_OK_def)
qed

lemma accepted_replicate:
  assumes "0 < n" "n < 32760" "isdigit c"
  shows "loader_line (replicate n c @ [CHR 0x0A]) = InsertLine (replicate n c)"
proof -
  have ne: "\<not> is_eol c" "c \<noteq> CHR 0x00" using assms(3) by (auto simp: isdigit_def is_eol_def)
  have tw: "takeWhile (\<lambda>c. c \<noteq> CHR 0x00) (replicate n c @ [CHR 0x0A]) = replicate n c @ [CHR 0x0A]"
    using ne(2) by (simp add: takeWhile_eq_all_conv)
  have eol: "is_eol (CHR 0x0A)" by (simp add: is_eol_def)
  have k: "strip_eol (take (strlen (replicate n c @ [CHR 0x0A])) (replicate n c @ [CHR 0x0A])) =
      replicate n c"
    unfolding take_strlen tw using ne(1) eol by (simp add: strip_eol_dropWhile del: strip_eol.simps)
  show ?thesis unfolding loader_line_def Let_def k using assms by simp
qed

text \<open>C4. The retry on a fresh page succeeds for the lines that fit a page. On an empty
  page a record of \<open>len\<close> bytes needs \<open>len + 4\<close> bytes after the header of 8, so
  \<open>SP_InsertRecord\<close> on a page fresh from \<open>SP_InitPage\<close> returns \<open>SP_OK\<close> exactly for
  \<open>0 < len \<le> PF_PAGE_SIZE - 12\<close> (\<open>fresh_page_insert\<close>). When every line the loop is given
  keeps at most \<open>PF_PAGE_SIZE - 12\<close> characters (those before its first NUL, without the
  line end), the insertion of every accepted line into a fresh page returns \<open>SP_OK\<close>, and
  the read loop ends without aborting, having counted one record for each line it did not
  skip. The loader itself accepts longer lines (up to 4095 characters from \<open>fgets\<close>, its
  own check being \<open>len < 32760\<close>); for those the insertion returns \<open>SP_ERR_NOSPACE\<close> on the
  current page and on the fresh page, \<open>insertRecord\<close> hands that code on and the loader
  exits with code 1, whatever the store held before (\<open>load_loop_too_long\<close>); the second
  theorem below shows it for a page of 4096 bytes and a line of 4085 digits.\<close>

theorem insertRecord_retry_succeeds_when_line_fits:
  assumes "8 \<le> ps" "ps \<le> 32767"
    and "\<forall>n. int (length (fst (bufs n))) = ps \<and> int (length (snd (bufs n))) = ps"
    and "store_ok ps store file"
    and "\<forall>line\<in>set lines. int (length (strip_eol (take (strlen line) line))) + 12 \<le> ps"
  shows "(\<forall>line\<in>set lines. \<forall>l buf. loader_line line = InsertLine l \<and> int (length buf) = ps \<longrightarrow>
       (\<exists>p0 sid p'. SP_InitPage ps buf = Some p0 \<and>
          SP_InsertRecord ps p0 (line_bytes l) (to_short (int (length l))) = Some (SP_OK, sid, p'))) \<and>
     (\<exists>store' file'. load_loop ps bufs n store file tot lines =
        Some (Inr (store', file',
          tot + int (length (filter (\<lambda>line. loader_line line \<noteq> Skip) lines)))))"
proof (intro conjI ballI allI impI)
  fix line l and buf :: page
  assume line: "line \<in> set lines" and a: "loader_line line = InsertLine l \<and> int (length buf) = ps"
  note A = accepted_line [OF a [THEN conjunct1]]
  define len where "len = int (length l)"
  have ts: "to_short (int (length l)) = len" using A(3) by (simp add: len_def to_short_id)
  have len: "0 < len" "len + 12 \<le> ps" "len \<le> 32767" "0 < len \<longrightarrow> nat len \<le> length (line_bytes l)"
    using A(1,2,3) assms(5) line by (auto simp: len_def line_bytes_def)
  from fresh_page_insert [OF assms(1,2) a [THEN conjunct2] len(3,4)] len(1,2)
  show "\<exists>p0 sid p'. SP_InitPage ps buf = Some p0 \<and>
          SP_InsertRecord ps p0 (line_bytes l) (to_short (int (length l))) = Some (SP_OK, sid, p')"
    unfolding ts by blast
next
  from load_loop_spec [OF assms, of n tot]
  show "\<exists>store' file'. load_loop ps bufs n store file tot lines =
        Some (Inr (store', file',
          tot + int (length (filter (\<lambda>line. loader_line line \<noteq> Skip) lines))))" by blast
qed

theorem insertRecord_retry_succeeds_when_line_fits_witness:
  "load_loop 32 small_bufs 0 \<lparr>lastPage = 0, pageCount = 1, recordCount = 2\<rparr> [two_record_page] 0
     [''12345'' @ [CHR 0x0A], ''# comment'' @ [CHR 0x0A], ''777''] =
   Some (Inr (\<lparr>lastPage = 1, pageCount = 2, recordCount = 4\<rparr>,
     [two_record_page,
      [2, 0, 255, 255, 24, 0, 0, 0, 27, 0, 5, 0, 24, 0, 3, 0, 0, 0, 0, 0,
       0, 0, 0, 0, 55, 55, 55, 49, 50, 51, 52, 53]], 2)) \<and>
   (\<exists>p0 sid p'. SP_InitPage 32 (replicate 32 0) = Some p0 \<and>
      SP_InsertRecord 32 p0 (line_bytes ''12345'') (to_short (int (length ''12345''))) =
        Some (SP_OK, sid, p'))"
proof -
  let ?lines = "[''12345'' @ [CHR 0x0A], ''# comment'' @ [CHR 0x0A], ''777'']"
  let ?store = "\<lparr>lastPage = 0, pageCount = 1, recordCount = 2\<rparr>"
  have h: "(8::int) \<le> 32" "(32::int) \<le> 32767"
    "\<forall>n. int (length (fst (small_bufs n))) = 32 \<and> int (length (snd (small_bufs n))) = 32"
    "store_ok 32 ?store [two_record_page]"
    "\<forall>line\<in>set ?lines. int (length (strip_eol (take (strlen line) line))) + 12 \<le> 32"
    by (simp_all add: small_bufs_def store_ok_def two_record_page_inv strip_eol_dropWhile is_eol_def
        strlen_def)
  note T = insertRecord_retry_succeeds_when_line_fits [OF h, of 0 0]
  have l: "loader_line (''12345'' @ [CHR 0x0A]) = InsertLine ''12345''"
    by (simp add: loader_line_def strlen_def strip_eol_dropWhile is_eol_def isdigit_def)
  have "\<exists>p0 sid p'. SP_InitPage 32 (replicate 32 0) = Some p0 \<and>
      SP_InsertRecord 32 p0 (line_bytes ''12345'') (to_short (int (length ''12345''))) =
        Some (SP_OK, sid, p')"
    using T [THEN conjunct1, rule_format, of "''12345'' @ [CHR 0x0A]" "''12345''" "replicate 32 0"] l
    by simp
  moreover have "load_loop 32 small_bufs 0 ?store [two_record_page] 0 ?lines =
   Some (Inr (\<lparr>lastPage = 1, pageCount = 2, recordCount = 4\<rparr>,
     [two_record_page,
      [2, 0, 255, 255, 24, 0, 0, 0, 27, 0, 5, 0, 24, 0, 3, 0, 0, 0, 0, 0,
       0, 0, 0, 0, 55, 55, 55, 49, 50, 51, 52, 53]], 2))"
    by code_simp
  ultimately show ?thesis by blast
qed


theorem loader_aborts_on_accepted_long_line:
  "loader_line long_line = InsertLine (replicate 4085 (CHR ''1'')) \<and>
   load_loop 4096 zero_bufs 0 new_store [] 0 [long_line] = Some (Inl 1)"
proof -
  define L where "L = replicate 4085 (CHR ''1'')"
  have ll: "long_line = L @ [CHR 0x0A]" by (simp only: long_line_def L_def)
  have n: "(0::nat) < 4085" "(4085::nat) < 32760" "isdigit (CHR ''1'')" by (simp_all add: isdigit_def)
  have acc: "loader_line long_line = InsertLine L"
    unfolding ll L_def using n by (rule accepted_replicate)
  have lenL: "int (length L) = 4085" unfolding L_def length_replicate by simp
  have h: "(8::int) \<le> 4096" "(4096::int) \<le> 32767"
    "int (length (fst (zero_bufs 0))) = 4096" "int (length (snd (zero_bufs 0))) = 4096"
    "store_ok 4096 new_store []" "(4096::int) < int (length L) + 12"
    unfolding lenL zero_bufs_def fst_conv snd_conv length_replicate new_store_def store_ok_def
    by simp_all
  have "load_loop 4096 zero_bufs 0 new_store [] 0 [long_line] = Some (Inl 1)"
    using h(1,2,3,4,5) acc h(6) by (rule load_loop_too_long)
  then show ?thesis using acc unfolding L_def by (rule conjI [rotated])
qed



end
